theory Spec2Isabelle
  imports Main "HOL-Library.Sublist"
begin

unbundle bit_operations_syntax

section \<open>The CH341 I2C bridge driver (ch341-py-smbus.py)\<close>

text \<open>
  Python integers are unbounded, so every byte, count and address is an \<open>int\<close>;
  \<open>a << 1\<close> is \<open>push_bit 1 a\<close> and \<open>|\<close>, \<open>&\<close> are \<open>OR\<close>, \<open>AND\<close> on \<open>int\<close>.
\<close>

subsection \<open>Command constants\<close>

text \<open>class VendorCmd, class I2CCmd and the endpoints of class CH341 (the members the
  I2C code uses).\<close>

definition VendorCmd_I2C :: int where "VendorCmd_I2C = 0xaa"

definition I2CCmd_STA :: int where "I2CCmd_STA = 0x74"
definition I2CCmd_STO :: int where "I2CCmd_STO = 0x75"
definition I2CCmd_OUT :: int where "I2CCmd_OUT = 0x80"
definition I2CCmd_IN :: int where "I2CCmd_IN = 0xc0"
definition I2CCmd_MAX :: int where "I2CCmd_MAX = 32"
definition I2CCmd_SET :: int where "I2CCmd_SET = 0x60"
definition I2CCmd_END :: int where "I2CCmd_END = 0x00"

definition EP_OUT :: int where "EP_OUT = 0x02"
definition EP_IN :: int where "EP_IN = 0x82"

subsection \<open>The USB device, exceptions and the world\<close>

text \<open>
  \<open>self.dev\<close> is an object of the USB library, which is not part of the repository: it
  is a parameter of the model. A call \<open>dev.write(ep, data)\<close> returns a count and a call
  \<open>dev.read(ep, size, timeout)\<close> returns an array of bytes, or the call raises the
  library's own exception (a timeout, for one, or a value that is not a byte in the data
  of a write), which is not a \<open>ConnectionError\<close>: \<open>USBError\<close> stands for it.
  What the device answers may depend on everything exchanged with it so far, so a
  device is a pair of functions of the history of the channel.
\<close>

datatype exn = ConnectionError string | USBError

datatype 'a usb_result = Returns 'a | Raises

datatype event =
    DevWrite int "int list" "int usb_result"
  | DevRead int int "int option" "int list usb_result"

record usb_dev =
  dev_write :: "event list \<Rightarrow> int \<Rightarrow> int list \<Rightarrow> int usb_result"
  dev_read :: "event list \<Rightarrow> int \<Rightarrow> int \<Rightarrow> int option \<Rightarrow> int list usb_result"

text \<open>What \<open>print\<close> was called with: an error message, a list of bytes, or the
  scan's line (its text and the list of hex strings).\<close>

datatype printed = PrintStr string | PrintList "int list" | PrintScan string "string list"

text \<open>The world a call runs in: every call made on the channel with its answer, in order,
  and everything printed.\<close>

record world =
  trace :: "event list"
  stdout :: "printed list"

type_synonym 'a io = "world \<Rightarrow> (exn + 'a) \<times> world"

definition return_io :: "'a \<Rightarrow> 'a io" where
  "return_io x s = (Inr x, s)"

definition raise_io :: "exn \<Rightarrow> 'a io" where
  "raise_io e s = (Inl e, s)"

definition bind_io :: "'a io \<Rightarrow> ('a \<Rightarrow> 'b io) \<Rightarrow> 'b io" where
  "bind_io m f s = (case m s of (Inl e, s') \<Rightarrow> (Inl e, s') | (Inr x, s') \<Rightarrow> f x s')"

definition then_io :: "'a io \<Rightarrow> 'b io \<Rightarrow> 'b io" where
  "then_io m n = bind_io m (\<lambda>_. n)"

text \<open>\<open>try: m  except ConnectionError as err: h err\<close>; any other exception passes.\<close>

definition try_except :: "'a io \<Rightarrow> (string \<Rightarrow> 'a io) \<Rightarrow> 'a io" where
  "try_except m h s =
     (case m s of
        (Inl (ConnectionError err), s') \<Rightarrow> h err s'
      | (Inl USBError, s') \<Rightarrow> (Inl USBError, s')
      | (Inr x, s') \<Rightarrow> (Inr x, s'))"

definition print_io :: "printed \<Rightarrow> unit io" where
  "print_io p s = (Inr (), s\<lparr>stdout := stdout s @ [p]\<rparr>)"

text \<open>\<open>self.dev.write(ep, data)\<close> and \<open>self.dev.read(ep, size, timeout)\<close>.\<close>

definition usb_write :: "usb_dev \<Rightarrow> int \<Rightarrow> int list \<Rightarrow> int io" where
  "usb_write D ep data s =
     (let r = dev_write D (trace s) ep data;
          s' = s\<lparr>trace := trace s @ [DevWrite ep data r]\<rparr>
      in case r of Returns cnt \<Rightarrow> (Inr cnt, s') | Raises \<Rightarrow> (Inl USBError, s'))"

definition usb_read :: "usb_dev \<Rightarrow> int \<Rightarrow> int \<Rightarrow> int option \<Rightarrow> int list io" where
  "usb_read D ep n timeout s =
     (let r = dev_read D (trace s) ep n timeout;
          s' = s\<lparr>trace := trace s @ [DevRead ep n timeout r]\<rparr>
      in case r of Returns rval \<Rightarrow> (Inr rval, s') | Raises \<Rightarrow> (Inl USBError, s'))"

subsection \<open>class CH341\<close>

text \<open>set_speed: the band \<open>sbit\<close> of a speed, the command, and the method.\<close>

definition set_speed_sbit :: "int \<Rightarrow> int" where
  "set_speed_sbit speed =
     (if speed < 100 then 0
      else if speed < 400 then 1
      else if speed < 750 then 2
      else 3)"

definition set_speed_cmd :: "int \<Rightarrow> int list" where
  "set_speed_cmd speed = [VendorCmd_I2C, I2CCmd_SET OR set_speed_sbit speed, I2CCmd_END]"

definition set_speed :: "usb_dev \<Rightarrow> int \<Rightarrow> unit io" where
  "set_speed D speed =
     (let cmd = set_speed_cmd speed in
      bind_io (usb_write D EP_OUT cmd) (\<lambda>cnt.
        if cnt \<noteq> int (length cmd)
        then raise_io (ConnectionError ''Failed to issue I2C Set Speed Command'')
        else return_io ()))"

definition start_cmd :: "int list" where
  "start_cmd = [VendorCmd_I2C, I2CCmd_STA, I2CCmd_END]"

definition start :: "usb_dev \<Rightarrow> unit io" where
  "start D =
     (let cmd = start_cmd in
      bind_io (usb_write D EP_OUT cmd) (\<lambda>cnt.
        if cnt \<noteq> int (length cmd)
        then raise_io (ConnectionError ''Failed to issue I2C START Command'')
        else return_io ()))"

definition stop_cmd :: "int list" where
  "stop_cmd = [VendorCmd_I2C, I2CCmd_STO, I2CCmd_END]"

definition stop :: "usb_dev \<Rightarrow> unit io" where
  "stop D =
     (let cmd = stop_cmd in
      bind_io (usb_write D EP_OUT cmd) (\<lambda>cnt.
        if cnt \<noteq> int (length cmd)
        then raise_io (ConnectionError ''Failed to issue I2C STOP Command'')
        else return_io ()))"

text \<open>__check_ack. Python's \<open>or\<close> does not evaluate \<open>rval[0]\<close> when the length is not 1;
  \<open>rval[0] & 0x80\<close> is true when it is not 0.\<close>

definition ack_of :: "int list \<Rightarrow> bool" where
  "ack_of rval = (if length rval \<noteq> 1 \<or> (rval ! 0) AND 0x80 \<noteq> 0 then False else True)"

definition check_ack :: "usb_dev \<Rightarrow> bool io" where
  "check_ack D = bind_io (usb_read D EP_IN I2CCmd_MAX None) (\<lambda>rval. return_io (ack_of rval))"

text \<open>__write_bytes takes a list of bytes or one byte.\<close>

datatype pydata = PyInt int | PyList "int list"

definition write_bytes_cmd :: "pydata \<Rightarrow> int list" where
  "write_bytes_cmd data =
     ([VendorCmd_I2C, I2CCmd_OUT] @ (case data of PyList xs \<Rightarrow> xs | PyInt x \<Rightarrow> [x]))
       @ [I2CCmd_END]"

definition write_bytes :: "usb_dev \<Rightarrow> pydata \<Rightarrow> unit io" where
  "write_bytes D data =
     then_io (case data of PyList xs \<Rightarrow> print_io (PrintList xs) | PyInt x \<Rightarrow> return_io ())
       (let cmd = write_bytes_cmd data in
        bind_io (usb_write D EP_OUT cmd) (\<lambda>cnt.
          if cnt \<noteq> int (length cmd)
          then raise_io (ConnectionError ''Failed to issue I2C Send Command'')
          else bind_io (check_ack D) (\<lambda>ack.
            if \<not> ack then raise_io (ConnectionError ''I2C ACK not received'')
            else return_io ())))"

definition read_bytes_cmd :: "int \<Rightarrow> int list" where
  "read_bytes_cmd len = [VendorCmd_I2C, I2CCmd_IN OR len, I2CCmd_END]"

definition read_bytes :: "usb_dev \<Rightarrow> int \<Rightarrow> int list io" where
  "read_bytes D len =
     (let cmd = read_bytes_cmd len in
      bind_io (usb_write D EP_OUT cmd) (\<lambda>cnt.
        if cnt \<noteq> int (length cmd)
        then raise_io (ConnectionError ''Failed to issue I2C Receive Command'')
        else bind_io (usb_read D EP_IN len (Some 100)) (\<lambda>rval.
          if int (length rval) \<noteq> len
          then raise_io (ConnectionError ''I2C Received an incorrect number of bytes'')
          else return_io rval)))"

definition detect :: "usb_dev \<Rightarrow> int \<Rightarrow> bool io" where
  "detect D addr =
     try_except
       (then_io (start D)
       (then_io (write_bytes D (PyInt (push_bit 1 addr)))
       (then_io (stop D)
       (return_io True))))
       (\<lambda>err. then_io (print_io (PrintStr err)) (return_io False))"

text \<open>The two writes return None on every path: the result is \<open>unit\<close>.\<close>

definition write_byte_data :: "usb_dev \<Rightarrow> int \<Rightarrow> int option \<Rightarrow> int \<Rightarrow> unit io" where
  "write_byte_data D addr off byte =
     try_except
       (then_io (start D)
       (then_io (write_bytes D (PyInt (push_bit 1 addr)))
       (then_io (case off of Some off' \<Rightarrow> write_bytes D (PyInt off') | None \<Rightarrow> return_io ())
       (then_io (write_bytes D (PyInt byte))
       (stop D)))))
       (\<lambda>err. print_io (PrintStr err))"

definition write_i2c_block_data :: "usb_dev \<Rightarrow> int \<Rightarrow> int option \<Rightarrow> int list \<Rightarrow> unit io" where
  "write_i2c_block_data D addr off data =
     try_except
       (then_io (start D)
       (then_io (write_bytes D (PyInt (push_bit 1 addr)))
       (then_io (case off of Some off' \<Rightarrow> write_bytes D (PyInt off') | None \<Rightarrow> return_io ())
       (then_io (write_bytes D (PyList data))
       (stop D)))))
       (\<lambda>err. print_io (PrintStr err))"

text \<open>
  The two reads return the local \<open>rval\<close>, which is None until \<open>__read_bytes\<close> has returned:
  a ConnectionError before that point returns None, one raised by the last \<open>__stop\<close>
  returns what was read. The handler is the same on both paths (\<open>print(err)\<close>); the
  model writes it once for each value of \<open>rval\<close>.
\<close>

definition read_byte_data :: "usb_dev \<Rightarrow> int \<Rightarrow> int \<Rightarrow> int option io" where
  "read_byte_data D addr off =
     try_except
       (then_io (start D)
       (then_io (write_bytes D (PyInt (push_bit 1 addr)))
       (then_io (write_bytes D (PyInt off))
       (then_io (stop D)
       (then_io (start D)
       (then_io (write_bytes D (PyInt (push_bit 1 addr OR 1)))
       (bind_io (read_bytes D 1) (\<lambda>rval.
          try_except
            (then_io (stop D) (return_io (Some (rval ! 0))))
            (\<lambda>err. then_io (print_io (PrintStr err)) (return_io (Some (rval ! 0))))))))))))
       (\<lambda>err. then_io (print_io (PrintStr err)) (return_io None))"

definition read_i2c_block_data :: "usb_dev \<Rightarrow> int \<Rightarrow> int \<Rightarrow> int \<Rightarrow> int list option io" where
  "read_i2c_block_data D addr off len =
     try_except
       (then_io (start D)
       (then_io (write_bytes D (PyInt (push_bit 1 addr)))
       (then_io (write_bytes D (PyInt off))
       (then_io (stop D)
       (then_io (start D)
       (then_io (write_bytes D (PyInt (push_bit 1 addr OR 1)))
       (bind_io (read_bytes D len) (\<lambda>rval.
          try_except
            (then_io (stop D) (return_io (Some rval)))
            (\<lambda>err. then_io (print_io (PrintStr err)) (return_io (Some rval)))))))))))
       (\<lambda>err. then_io (print_io (PrintStr err)) (return_io None))"

subsection \<open>scan\<close>

text \<open>Python's \<open>hex\<close>.\<close>

definition hexdigit :: "nat \<Rightarrow> char" where
  "hexdigit d = ''0123456789abcdef'' ! d"

function hexdigits :: "nat \<Rightarrow> string" where
  "hexdigits n = (if n < 16 then [hexdigit n] else hexdigits (n div 16) @ [hexdigit (n mod 16)])"
  by pat_completeness auto
termination
  by (relation "measure (\<lambda>n. n)") auto

definition hex :: "int \<Rightarrow> string" where
  "hex a = (if a < 0 then ''-0x'' @ hexdigits (nat (- a)) else ''0x'' @ hexdigits (nat a))"

text \<open>The loop of scan over the addresses still to try, with the \<open>results\<close> so far.\<close>

fun scan_loop :: "usb_dev \<Rightarrow> int list \<Rightarrow> int list \<Rightarrow> int list io" where
  "scan_loop D [] results s = (Inr results, s)"
| "scan_loop D (i # is) results s =
     (case detect D i s of
        (Inl e, s') \<Rightarrow> (Inl e, s')
      | (Inr r, s') \<Rightarrow> scan_loop D is (if r then results @ [i] else results) s')"

definition scan :: "usb_dev \<Rightarrow> unit io" where
  "scan D =
     bind_io (scan_loop D [0..249] []) (\<lambda>results.
       print_io (PrintScan ''Responses from i2c devices at: '' (map hex results)))"

subsection \<open>Runs on the channel\<close>

text \<open>The call an event records, without the device's answer.\<close>

datatype call = WriteCall int "int list" | ReadCall int int "int option"

fun call_of :: "event \<Rightarrow> call" where
  "call_of (DevWrite ep cmd a) = WriteCall ep cmd"
| "call_of (DevRead ep n t a) = ReadCall ep n t"

text \<open>
  How the driver judges an answer. A write is good when the count is the length of the
  command. The read without a timeout is the one of \<open>__check_ack\<close>, good when the answer
  is an ACK; the read with a timeout is the one of \<open>__read_bytes\<close>, good when it brings
  the number of bytes asked for.
\<close>

fun event_ok :: "event \<Rightarrow> bool" where
  "event_ok (DevWrite ep cmd a) = (a = Returns (int (length cmd)))"
| "event_ok (DevRead ep n t a) =
     (case a of
        Raises \<Rightarrow> False
      | Returns rval \<Rightarrow>
          (case t of None \<Rightarrow> ack_of rval | Some _ \<Rightarrow> int (length rval) = n))"

text \<open>The exception a bad answer ends in: the channel's own when the call raised, a
  ConnectionError otherwise.\<close>

fun fails_with :: "event \<Rightarrow> exn \<Rightarrow> bool" where
  "fails_with (DevWrite ep cmd Raises) e = (e = USBError)"
| "fails_with (DevWrite ep cmd (Returns cnt)) e =
     (cnt \<noteq> int (length cmd) \<and> (case e of ConnectionError msg \<Rightarrow> True | USBError \<Rightarrow> False))"
| "fails_with (DevRead ep n t Raises) e = (e = USBError)"
| "fails_with (DevRead ep n None (Returns rval)) e =
     (\<not> ack_of rval \<and> e = ConnectionError ''I2C ACK not received'')"
| "fails_with (DevRead ep n (Some t) (Returns rval)) e =
     (int (length rval) \<noteq> n \<and>
      e = ConnectionError ''I2C Received an incorrect number of bytes'')"

text \<open>An ACK check that the device answered with a NAK.\<close>

fun is_nak :: "event \<Rightarrow> bool" where
  "is_nak (DevRead ep n None (Returns rval)) = (\<not> ack_of rval)"
| "is_nak e = False"

text \<open>
  A run of a script \<open>cs\<close> of calls: the events \<open>new\<close> are the script's calls in order, up
  to the first bad answer; the result is a value when the whole script ran with good
  answers, and the exception of the bad answer otherwise.
\<close>

definition run_ok :: "call list \<Rightarrow> event list \<Rightarrow> exn + 'a \<Rightarrow> bool" where
  "run_ok cs new r \<longleftrightarrow>
     prefix (map call_of new) cs \<and> (\<forall>e \<in> set (butlast new). event_ok e) \<and>
     (case r of
        Inr x \<Rightarrow> map call_of new = cs \<and> (\<forall>e \<in> set new. event_ok e)
      | Inl e \<Rightarrow> new \<noteq> [] \<and> fails_with (last new) e)"

definition performs :: "'a io \<Rightarrow> call list \<Rightarrow> bool" where
  "performs m cs \<longleftrightarrow>
     (\<forall>s r s'. m s = (r, s') \<longrightarrow> (\<exists>new. trace s' = trace s @ new \<and> run_ok cs new r))"

text \<open>The phases of a transaction and the calls each one makes on the channel.\<close>

datatype phase = START | WRITE pydata | READ int | STOP

fun phase_calls :: "phase \<Rightarrow> call list" where
  "phase_calls START = [WriteCall EP_OUT start_cmd]"
| "phase_calls (WRITE data) =
     [WriteCall EP_OUT (write_bytes_cmd data), ReadCall EP_IN I2CCmd_MAX None]"
| "phase_calls (READ len) =
     [WriteCall EP_OUT (read_bytes_cmd len), ReadCall EP_IN len (Some 100)]"
| "phase_calls STOP = [WriteCall EP_OUT stop_cmd]"

definition phases_calls :: "phase list \<Rightarrow> call list" where
  "phases_calls ps = concat (map phase_calls ps)"

text \<open>What a call may print, and whether a call on the channel raised.\<close>

definition prints_in :: "'a io \<Rightarrow> printed set \<Rightarrow> bool" where
  "prints_in m A \<longleftrightarrow>
     (\<forall>s r s'. m s = (r, s') \<longrightarrow> (\<exists>ps. stdout s' = stdout s @ ps \<and> set ps \<subseteq> A))"

fun raised :: "event \<Rightarrow> bool" where
  "raised (DevWrite ep cmd a) = (a = Raises)"
| "raised (DevRead ep n t a) = (a = Raises)"

text \<open>The scripts of the operations, phase by phase.\<close>

definition write_phases :: "int \<Rightarrow> int option \<Rightarrow> pydata \<Rightarrow> phase list" where
  "write_phases addr off data =
     [START, WRITE (PyInt (push_bit 1 addr))] @
     (case off of Some off' \<Rightarrow> [WRITE (PyInt off')] | None \<Rightarrow> []) @
     [WRITE data, STOP]"

definition read_phases :: "int \<Rightarrow> int \<Rightarrow> int \<Rightarrow> phase list" where
  "read_phases addr off len =
     [START, WRITE (PyInt (push_bit 1 addr)), WRITE (PyInt off), STOP,
      START, WRITE (PyInt (push_bit 1 addr OR 1)), READ len, STOP]"


text \<open>
  The scan in the specification's words: probe each candidate address once, in order, on
  the same channel, and collect the addresses whose probe returned True. \<open>probe_each\<close>
  gives the presences, or the exception that ended the probing.
\<close>

fun probe_each :: "usb_dev \<Rightarrow> int list \<Rightarrow> bool list io" where
  "probe_each D [] s = (Inr [], s)"
| "probe_each D (a # as) s =
     (case detect D a s of
        (Inl e, s') \<Rightarrow> (Inl e, s')
      | (Inr p, s') \<Rightarrow>
          (case probe_each D as s' of
             (Inl e, s'') \<Rightarrow> (Inl e, s'')
           | (Inr ps, s'') \<Rightarrow> (Inr (p # ps), s'')))"

definition collected :: "int list \<Rightarrow> bool list \<Rightarrow> int list" where
  "collected addrs ps = map fst (filter snd (zip addrs ps))"

subsection \<open>Devices and a world to run examples in\<close>

definition world0 :: world where
  "world0 = \<lparr>trace = [], stdout = []\<rparr>"

text \<open>Takes every command whole, acknowledges every byte, and reads as many bytes 0x5a
  as asked for.\<close>

definition dev_all_ack :: usb_dev where
  "dev_all_ack =
     \<lparr>dev_write = (\<lambda>h ep data. Returns (int (length data))),
      dev_read = (\<lambda>h ep n t.
        case t of None \<Rightarrow> Returns [0] | Some _ \<Rightarrow> Returns (replicate (nat n) 0x5a))\<rparr>"

text \<open>Takes every command whole and acknowledges nothing.\<close>

definition dev_all_nak :: usb_dev where
  "dev_all_nak =
     \<lparr>dev_write = (\<lambda>h ep data. Returns (int (length data))),
      dev_read = (\<lambda>h ep n t. Returns [0x80])\<rparr>"

text \<open>Takes no byte of any command.\<close>

definition dev_short_write :: usb_dev where
  "dev_short_write =
     \<lparr>dev_write = (\<lambda>h ep data. Returns 0),
      dev_read = (\<lambda>h ep n t. Returns [])\<rparr>"

text \<open>
  A channel of bytes: a write whose data holds a value outside 0..255 raises, as the
  conversion of the data to unsigned bytes does in the library.
\<close>

definition byte_channel :: "usb_dev \<Rightarrow> bool" where
  "byte_channel D \<longleftrightarrow>
     (\<forall>h ep data. (\<exists>b \<in> set data. b < 0 \<or> 255 < b) \<longrightarrow> dev_write D h ep data = Raises)"

text \<open>A channel of bytes that takes every command whole and acknowledges the address 0x50
  only.\<close>

definition dev_bytes_at_0x50 :: usb_dev where
  "dev_bytes_at_0x50 =
     \<lparr>dev_write = (\<lambda>h ep data.
        if list_all (\<lambda>b. 0 \<le> b \<and> b \<le> 255) data then Returns (int (length data))
        else Raises),
      dev_read = (\<lambda>h ep n t.
        if h \<noteq> [] \<and> last h = DevWrite 0x02 [0xaa, 0x80, 0xa0, 0x00] (Returns 4)
        then Returns [0] else Returns [0x80])\<rparr>"

section \<open>Proofs\<close>

lemmas cmd_defs = VendorCmd_I2C_def I2CCmd_STA_def I2CCmd_STO_def I2CCmd_OUT_def
  I2CCmd_IN_def I2CCmd_MAX_def I2CCmd_SET_def I2CCmd_END_def EP_OUT_def EP_IN_def

lemmas io_defs = return_io_def raise_io_def bind_io_def then_io_def try_except_def
  print_io_def usb_write_def usb_read_def

lemmas dev_defs = dev_all_ack_def dev_all_nak_def dev_short_write_def world0_def

subsection \<open>Runs compose\<close>

lemma fails_not_ok: "fails_with e x \<Longrightarrow> \<not> event_ok e"
  by (induction e x rule: fails_with.induct) auto

lemma nak_not_ok: "is_nak e \<Longrightarrow> \<not> event_ok e"
  by (induction e rule: is_nak.induct) auto

lemma nak_fails_with: "is_nak e \<Longrightarrow> fails_with e x \<Longrightarrow> x = ConnectionError ''I2C ACK not received''"
  by (induction e rule: is_nak.induct) auto

lemma fails_with_USBError: "fails_with e USBError \<longleftrightarrow> raised e"
  by (induction e USBError rule: fails_with.induct) auto

lemma fails_with_raised: "fails_with e x \<Longrightarrow> raised e \<Longrightarrow> x = USBError"
  by (induction e x rule: fails_with.induct) auto

lemma then_bind_assoc: "then_io m (bind_io n f) = bind_io (then_io m n) f"
  by (auto simp add: fun_eq_iff then_io_def bind_io_def split: prod.splits sum.splits)

lemma performs_return: "performs (return_io x) []"
  by (simp add: performs_def run_ok_def return_io_def)

lemma performs_print: "performs (print_io p) []"
  by (auto simp add: performs_def run_ok_def print_io_def)

lemma run_ok_append:
  assumes "run_ok cs n1 (Inr x)" and "run_ok ds n2 r"
  shows "run_ok (cs @ ds) (n1 @ n2) r"
proof (cases n2)
  case Nil
  with assms show ?thesis
    by (cases r) (auto simp add: run_ok_def dest: in_set_butlastD)
next
  case (Cons a list)
  then have "butlast (n1 @ n2) = n1 @ butlast n2"
    by (simp add: butlast_append)
  with assms Cons show ?thesis
    by (cases r) (auto simp add: run_ok_def)
qed

lemma run_ok_Inl_extend: "run_ok cs n1 (Inl e) \<Longrightarrow> run_ok (cs @ ds) n1 (Inl e)"
  by (auto simp add: run_ok_def)

lemma performs_bind:
  assumes m: "performs m cs" and f: "\<And>x. performs (f x) ds"
  shows "performs (bind_io m f) (cs @ ds)"
  unfolding performs_def
proof (intro allI impI)
  fix s r s'
  assume run: "bind_io m f s = (r, s')"
  obtain r1 s1 where ms: "m s = (r1, s1)"
    by (cases "m s")
  from m ms obtain n1 where n1: "trace s1 = trace s @ n1" "run_ok cs n1 r1"
    unfolding performs_def by blast
  show "\<exists>new. trace s' = trace s @ new \<and> run_ok (cs @ ds) new r"
  proof (cases r1)
    case (Inl e)
    with run ms have "r = Inl e" "s' = s1"
      by (simp_all add: bind_io_def)
    with n1 Inl show ?thesis
      by (auto intro: run_ok_Inl_extend)
  next
    case (Inr x)
    with run ms have fx: "f x s1 = (r, s')"
      by (simp add: bind_io_def)
    with f [of x] obtain n2 where n2: "trace s' = trace s1 @ n2" "run_ok ds n2 r"
      unfolding performs_def by blast
    from n1 n2 Inr have "trace s' = trace s @ (n1 @ n2)" "run_ok (cs @ ds) (n1 @ n2) r"
      by (auto intro: run_ok_append)
    then show ?thesis
      by blast
  qed
qed

lemma performs_then:
  "performs m cs \<Longrightarrow> performs n ds \<Longrightarrow> performs (then_io m n) (cs @ ds)"
  by (simp add: then_io_def performs_bind)

lemma performs_start: "performs (start D) (phase_calls START)"
  by (auto simp add: performs_def run_ok_def start_def io_defs Let_def start_cmd_def
      split: usb_result.splits if_splits)

lemma performs_stop: "performs (stop D) (phase_calls STOP)"
  by (auto simp add: performs_def run_ok_def stop_def io_defs Let_def stop_cmd_def
      split: usb_result.splits if_splits)

lemma performs_write_bytes: "performs (write_bytes D data) (phase_calls (WRITE data))"
  by (cases data)
    (auto simp add: performs_def run_ok_def write_bytes_def check_ack_def io_defs Let_def
      split: usb_result.splits if_splits)

lemma performs_read_bytes: "performs (read_bytes D len) (phase_calls (READ len))"
  by (auto simp add: performs_def run_ok_def read_bytes_def io_defs Let_def
      split: usb_result.splits if_splits)

lemma performs_offset:
  "performs (case off of Some off' \<Rightarrow> write_bytes D (PyInt off') | None \<Rightarrow> return_io ())
     (phases_calls (case off of Some off' \<Rightarrow> [WRITE (PyInt off')] | None \<Rightarrow> []))"
  using performs_write_bytes performs_return
  by (cases off) (simp_all add: phases_calls_def)

lemma read_bytes_value:
  assumes "read_bytes D len s = (Inr rval, s')"
  shows "last (trace s') = DevRead EP_IN len (Some 100) (Returns rval)"
  using assms
  by (auto simp add: read_bytes_def io_defs Let_def split: usb_result.splits if_splits)

text \<open>What a call prints.\<close>

lemma prints_in_return: "prints_in (return_io x) A"
  by (simp add: prints_in_def return_io_def)

lemma prints_in_print: "p \<in> A \<Longrightarrow> prints_in (print_io p) A"
  by (auto simp add: prints_in_def print_io_def)

lemma prints_in_bind:
  assumes m: "prints_in m A" and f: "\<And>x. prints_in (f x) A"
  shows "prints_in (bind_io m f) A"
  unfolding prints_in_def
proof (intro allI impI)
  fix s r s'
  assume run: "bind_io m f s = (r, s')"
  obtain r1 s1 where ms: "m s = (r1, s1)"
    by (cases "m s")
  from m ms obtain p1 where p1: "stdout s1 = stdout s @ p1" "set p1 \<subseteq> A"
    unfolding prints_in_def by blast
  show "\<exists>ps. stdout s' = stdout s @ ps \<and> set ps \<subseteq> A"
  proof (cases r1)
    case (Inl e)
    with run ms have "s' = s1"
      by (simp add: bind_io_def)
    with p1 show ?thesis
      by blast
  next
    case (Inr x)
    with run ms have "f x s1 = (r, s')"
      by (simp add: bind_io_def)
    with f [of x] obtain p2 where "stdout s' = stdout s1 @ p2" "set p2 \<subseteq> A"
      unfolding prints_in_def by blast
    with p1 have "stdout s' = stdout s @ (p1 @ p2)" "set (p1 @ p2) \<subseteq> A"
      by simp_all
    then show ?thesis
      by blast
  qed
qed

lemma prints_in_then: "prints_in m A \<Longrightarrow> prints_in n A \<Longrightarrow> prints_in (then_io m n) A"
  by (simp add: then_io_def prints_in_bind)

lemma prints_in_start: "prints_in (start D) A"
  by (auto simp add: prints_in_def start_def io_defs Let_def split: usb_result.splits if_splits)

lemma prints_in_stop: "prints_in (stop D) A"
  by (auto simp add: prints_in_def stop_def io_defs Let_def split: usb_result.splits if_splits)

lemma prints_in_write_int: "prints_in (write_bytes D (PyInt x)) A"
  by (auto simp add: prints_in_def write_bytes_def check_ack_def io_defs Let_def
      split: usb_result.splits if_splits)

lemma prints_in_write_list: "PrintList xs \<in> A \<Longrightarrow> prints_in (write_bytes D (PyList xs)) A"
  by (auto simp add: prints_in_def write_bytes_def check_ack_def io_defs Let_def
      split: usb_result.splits if_splits)

lemma prints_in_read_bytes: "prints_in (read_bytes D len) A"
  by (auto simp add: prints_in_def read_bytes_def io_defs Let_def
      split: usb_result.splits if_splits)

lemma prints_in_offset:
  "prints_in (case off of Some off' \<Rightarrow> write_bytes D (PyInt off') | None \<Rightarrow> return_io ()) A"
  by (cases off) (simp_all add: prints_in_write_int prints_in_return)

lemma try_print_cases:
  assumes "try_except m (\<lambda>err. then_io (print_io (PrintStr err)) (return_io d)) s = (r, s')"
  obtains (finished) x where "m s = (Inr x, s')" and "r = Inr x"
  | (passed) "m s = (Inl USBError, s')" and "r = Inl USBError"
  | (caught) err s1 where "m s = (Inl (ConnectionError err), s1)" and "r = Inr d"
      and "s' = s1\<lparr>stdout := stdout s1 @ [PrintStr err]\<rparr>"
proof -
  obtain rb s1 where ms: "m s = (rb, s1)"
    by (cases "m s")
  show thesis
  proof (cases rb)
    case (Inl e)
    show ?thesis
    proof (cases e)
      case (ConnectionError err)
      with Inl ms assms have "r = Inr d" "s' = s1\<lparr>stdout := stdout s1 @ [PrintStr err]\<rparr>"
        by (simp_all add: io_defs)
      with ConnectionError Inl ms show ?thesis
        by (auto intro: caught)
    next
      case USBError
      with Inl ms assms show ?thesis
        by (auto simp add: io_defs intro: passed)
    qed
  next
    case (Inr x)
    with ms assms show ?thesis
      by (auto simp add: io_defs intro: finished)
  qed
qed

lemma print_then_return: "print_io p = then_io (print_io p) (return_io ())"
  by (simp add: fun_eq_iff io_defs)

lemma try_print_run:
  assumes t: "try_except m (\<lambda>err. then_io (print_io (PrintStr err)) (return_io d)) s = (r, s')"
    and p: "performs m cs" and q: "prints_in m A"
  obtains new rb ps where "trace s' = trace s @ new" and "run_ok cs new rb" and "set ps \<subseteq> A"
    and "m s = (rb, s'\<lparr>stdout := stdout s @ ps\<rparr>)"
    and "r = (case rb of Inr x \<Rightarrow> Inr x | Inl (ConnectionError msg) \<Rightarrow> Inr d
                | Inl USBError \<Rightarrow> Inl USBError)"
    and "stdout s' = stdout s @ ps @
           (case rb of Inl (ConnectionError msg) \<Rightarrow> [PrintStr msg] | _ \<Rightarrow> [])"
proof -
  obtain rb s1 where ms: "m s = (rb, s1)"
    by (cases "m s")
  from p ms obtain new where new: "trace s1 = trace s @ new" "run_ok cs new rb"
    unfolding performs_def by blast
  from q ms obtain ps where ps: "stdout s1 = stdout s @ ps" "set ps \<subseteq> A"
    unfolding prints_in_def by blast
  from t show thesis
  proof (cases rule: try_print_cases)
    case (finished x)
    with ms new ps show ?thesis
      by (intro that [of new rb ps]) auto
  next
    case passed
    with ms new ps show ?thesis
      by (intro that [of new rb ps]) auto
  next
    case (caught err s2)
    with ms new ps show ?thesis
      by (intro that [of new rb ps]) auto
  qed
qed

lemma then_io_InrE:
  assumes "then_io m n s = (Inr x, s')"
  obtains y s0 where "m s = (Inr y, s0)" and "n s0 = (Inr x, s')"
  using assms by (auto simp add: then_io_def bind_io_def split: prod.splits sum.splits)

lemma stop_return_value: "then_io (stop D) (return_io v) s = (Inr x, s') \<Longrightarrow> x = v"
  by (auto elim!: then_io_InrE simp add: return_io_def)

lemma performs_stop_return: "performs (then_io (stop D) (return_io v)) (phase_calls STOP)"
  using performs_then [OF performs_stop performs_return] by simp

lemma prints_in_stop_return: "prints_in (then_io (stop D) (return_io v)) {}"
  by (intro prints_in_then prints_in_stop prints_in_return)

text \<open>The shape of the two reads.\<close>

lemma read_shape_cases:
  assumes run: "try_except
      (bind_io (P :: 'b io) (\<lambda>rval.
         try_except (then_io (stop D) (return_io (g rval)))
           (\<lambda>err. then_io (print_io (PrintStr err)) (return_io (g rval)))))
      (\<lambda>err. then_io (print_io (PrintStr err)) (return_io d)) s = (r, s')"
    and p: "performs P cs" and q: "prints_in P {}" and ne: "cs \<noteq> []"
    and v: "\<And>s0 rval s1. P s0 = (Inr rval, s1) \<Longrightarrow> last (trace s1) = ev rval"
  obtains (aborted) new e where "trace s' = trace s @ new" and "run_ok cs new (Inl e :: exn + 'b)"
      and "r = (case e of ConnectionError msg \<Rightarrow> Inr d | USBError \<Rightarrow> Inl USBError)"
      and "stdout s' = stdout s @ (case e of ConnectionError msg \<Rightarrow> [PrintStr msg] | USBError \<Rightarrow> [])"
  | (read) n1 rval st rs where "trace s' = trace s @ n1 @ [st]" and "run_ok cs n1 (Inr rval)"
      and "last n1 = ev rval" and "run_ok (phase_calls STOP) [st] (rs :: exn + unit)"
      and "r = (case rs of Inl USBError \<Rightarrow> Inl USBError | _ \<Rightarrow> Inr (g rval))"
      and "stdout s' = stdout s @ (case rs of Inl (ConnectionError msg) \<Rightarrow> [PrintStr msg] | _ \<Rightarrow> [])"
proof -
  let ?T = "\<lambda>rval. try_except (then_io (stop D) (return_io (g rval)))
           (\<lambda>err. then_io (print_io (PrintStr err)) (return_io (g rval)))"
  obtain rp s1 where ps: "P s = (rp, s1)"
    by (cases "P s")
  from p ps obtain n1 where n1: "trace s1 = trace s @ n1" "run_ok cs n1 rp"
    unfolding performs_def by blast
  from q ps have o1: "stdout s1 = stdout s"
    unfolding prints_in_def by fastforce
  show thesis
  proof (cases rp)
    case (Inl e)
    with ps have body: "bind_io P ?T s = (Inl e, s1)"
      by (simp add: bind_io_def)
    show ?thesis
    proof (cases e)
      case (ConnectionError msg)
      with body run have "r = Inr d" "s' = s1\<lparr>stdout := stdout s1 @ [PrintStr msg]\<rparr>"
        by (simp_all add: try_except_def then_io_def bind_io_def print_io_def return_io_def)
      with n1 o1 Inl ConnectionError show ?thesis
        by (intro aborted [of n1 e]) auto
    next
      case USBError
      with body run have "r = Inl USBError" "s' = s1"
        by (simp_all add: try_except_def)
      with n1 o1 Inl USBError show ?thesis
        by (intro aborted [of n1 e]) auto
    qed
  next
    case (Inr rval)
    with ps have body: "bind_io P ?T s = ?T rval s1"
      by (simp add: bind_io_def)
    obtain rt s2 where ts: "?T rval s1 = (rt, s2)"
      by (cases "?T rval s1")
    from ts obtain n2 rs ps2 where t: "trace s2 = trace s1 @ n2"
      "run_ok (phase_calls STOP) n2 rs" "set ps2 \<subseteq> {}"
      "then_io (stop D) (return_io (g rval)) s1 = (rs, s2\<lparr>stdout := stdout s1 @ ps2\<rparr>)"
      "rt = (case rs of Inr x \<Rightarrow> Inr x | Inl (ConnectionError msg) \<Rightarrow> Inr (g rval)
                | Inl USBError \<Rightarrow> Inl USBError)"
      "stdout s2 = stdout s1 @ ps2 @
           (case rs of Inl (ConnectionError msg) \<Rightarrow> [PrintStr msg] | _ \<Rightarrow> [])"
      by (rule try_print_run [OF _ performs_stop_return prints_in_stop_return])
    from t(2) obtain st where st: "n2 = [st]"
      by (cases n2; cases rs) (auto simp add: run_ok_def)
    have rt: "rt = (case rs of Inl USBError \<Rightarrow> Inl USBError | _ \<Rightarrow> Inr (g rval))"
    proof (cases rs)
      case (Inl e)
      with t(5) show ?thesis
        by (cases e) simp_all
    next
      case (Inr x)
      with t(4) have "x = g rval"
        by (auto dest: stop_return_value)
      with Inr t(5) show ?thesis
        by simp
    qed
    have "rt \<noteq> Inl (ConnectionError msg)" for msg
      using rt by (auto split: sum.splits exn.splits)
    then have fin: "r = rt" "s' = s2"
      using run body ts
      by (cases rt; auto simp add: try_except_def split: exn.splits)+
    have rs': "run_ok (phase_calls STOP) [st] (case rs of Inl e \<Rightarrow> Inl e | Inr _ \<Rightarrow> Inr ())"
      using t(2) st by (cases rs) (auto simp add: run_ok_def)
    from n1 Inr ne have "n1 \<noteq> []"
      by (auto simp add: run_ok_def)
    with v [OF ps [unfolded Inr]] n1 have l: "last n1 = ev rval"
      by simp
    let ?rs = "case rs of Inl e \<Rightarrow> Inl e | Inr _ \<Rightarrow> Inr ()"
    have 1: "trace s' = trace s @ n1 @ [st]"
      using fin t(1) n1 st by simp
    have 2: "r = (case ?rs of Inl USBError \<Rightarrow> Inl USBError | _ \<Rightarrow> Inr (g rval))"
      using fin rt by (auto split: sum.splits exn.splits)
    have 3: "stdout s' = stdout s @
        (case ?rs of Inl (ConnectionError msg) \<Rightarrow> [PrintStr msg] | _ \<Rightarrow> [])"
      using fin t(3,6) o1 by (auto split: sum.splits exn.splits)
    from 1 n1(2) [unfolded Inr] l rs' 2 3 show ?thesis
      by (rule read)
  qed
qed

lemma raised_not_ok: "raised e \<Longrightarrow> \<not> event_ok e"
  by (cases e) auto

lemma fails_with_cases:
  assumes "fails_with e x"
  obtains (usb) "x = USBError" and "raised e"
  | (conn) msg where "x = ConnectionError msg" and "\<not> raised e"
  using assms by (induction e x rule: fails_with.induct) (auto split: exn.splits)

lemma run_ok_bad_is_last:
  assumes "run_ok cs new rb" and "e \<in> set new" and "\<not> event_ok e"
  obtains x where "new \<noteq> []" and "e = last new" and "rb = Inl x" and "fails_with e x"
proof -
  from assms(2) have ne: "new \<noteq> []"
    by auto
  from assms have "e \<notin> set (butlast new)"
    by (auto simp add: run_ok_def)
  with assms(2) ne have l: "e = last new"
    by (metis append_butlast_last_id in_set_conv_decomp_last last_snoc rotate1.simps(2) set_ConsD set_rotate1)
  from assms obtain x where "rb = Inl x" "fails_with (last new) x"
    by (cases rb) (auto simp add: run_ok_def)
  with ne l that show thesis
    by simp
qed

lemma run_ok_nak_last:
  assumes "run_ok cs (pre @ e # post) rb" and "is_nak e"
  shows "post = [] \<and> rb = Inl (ConnectionError ''I2C ACK not received'')"
proof -
  from assms(2) have bad: "\<not> event_ok e"
    by (rule nak_not_ok)
  have "e \<in> set (pre @ e # post)"
    by simp
  with assms(1) obtain x where x: "e = last (pre @ e # post)" "rb = Inl x" "fails_with e x"
    using bad by (rule run_ok_bad_is_last)
  have "post = []"
  proof (rule ccontr)
    assume "post \<noteq> []"
    then have "e \<in> set (butlast (pre @ e # post))"
      by (simp add: butlast_append)
    with assms(1) bad show False
      by (auto simp add: run_ok_def)
  qed
  with x assms(2) show ?thesis
    by (auto dest: nak_fails_with)
qed

lemma run_ok_Inr_iff:
  assumes "run_ok cs new rb"
  shows "(\<exists>x. rb = Inr x) \<longleftrightarrow> map call_of new = cs \<and> (\<forall>e \<in> set new. event_ok e)"
proof (cases rb)
  case (Inl x)
  with assms have "new \<noteq> []" "\<not> event_ok (last new)"
    by (auto simp add: run_ok_def dest: fails_not_ok)
  then have "\<exists>e \<in> set new. \<not> event_ok e"
    using last_in_set by blast
  with Inl show ?thesis
    by auto
next
  case (Inr x)
  with assms show ?thesis
    by (auto simp add: run_ok_def)
qed

lemma run_ok_USBError_iff:
  assumes "run_ok cs new rb"
  shows "rb = Inl USBError \<longleftrightarrow> new \<noteq> [] \<and> raised (last new)"
proof
  assume "rb = Inl USBError"
  with assms show "new \<noteq> [] \<and> raised (last new)"
    by (simp add: run_ok_def fails_with_USBError)
next
  assume a: "new \<noteq> [] \<and> raised (last new)"
  then have "last new \<in> set new" "\<not> event_ok (last new)"
    by (simp_all add: raised_not_ok)
  with assms obtain x where "rb = Inl x" "fails_with (last new) x"
    by (rule run_ok_bad_is_last)
  with a show "rb = Inl USBError"
    by (auto dest: fails_with_raised)
qed

lemma run_ok_ConnectionError_iff:
  assumes "run_ok cs new rb"
  shows "(\<exists>msg. rb = Inl (ConnectionError msg)) \<longleftrightarrow>
    new \<noteq> [] \<and> \<not> event_ok (last new) \<and> \<not> raised (last new)"
proof
  assume "\<exists>msg. rb = Inl (ConnectionError msg)"
  then obtain msg where "rb = Inl (ConnectionError msg)" ..
  with assms have "new \<noteq> []" "fails_with (last new) (ConnectionError msg)"
    by (simp_all add: run_ok_def)
  then show "new \<noteq> [] \<and> \<not> event_ok (last new) \<and> \<not> raised (last new)"
    by (auto dest: fails_not_ok fails_with_raised)
next
  assume a: "new \<noteq> [] \<and> \<not> event_ok (last new) \<and> \<not> raised (last new)"
  then have "last new \<in> set new" "\<not> event_ok (last new)"
    by simp_all
  with assms obtain x where "rb = Inl x" "fails_with (last new) x"
    by (rule run_ok_bad_is_last)
  with a show "\<exists>msg. rb = Inl (ConnectionError msg)"
    by (auto elim: fails_with_cases)
qed


lemma write_run:
  assumes "try_except
       (then_io (start D)
       (then_io (write_bytes D (PyInt (push_bit 1 addr)))
       (then_io (case off of Some off' \<Rightarrow> write_bytes D (PyInt off') | None \<Rightarrow> return_io ())
       (then_io (write_bytes D data)
       (stop D)))))
       (\<lambda>err. print_io (PrintStr err)) s = (r, s')"
    and A: "\<And>xs. data = PyList xs \<Longrightarrow> PrintList xs \<in> A"
  obtains new rb ps where "trace s' = trace s @ new"
    and "run_ok (phases_calls (write_phases addr off data)) new (rb :: exn + unit)"
    and "set ps \<subseteq> A"
    and "r = (case rb of Inl USBError \<Rightarrow> Inl USBError | _ \<Rightarrow> Inr ())"
    and "stdout s' = stdout s @ ps @
           (case rb of Inl (ConnectionError msg) \<Rightarrow> [PrintStr msg] | _ \<Rightarrow> [])"
proof -
  let ?B = "then_io (start D)
       (then_io (write_bytes D (PyInt (push_bit 1 addr)))
       (then_io (case off of Some off' \<Rightarrow> write_bytes D (PyInt off') | None \<Rightarrow> return_io ())
       (then_io (write_bytes D data)
       (stop D))))"
  have "performs ?B (phase_calls START @ phase_calls (WRITE (PyInt (push_bit 1 addr))) @
      phases_calls (case off of Some off' \<Rightarrow> [WRITE (PyInt off')] | None \<Rightarrow> []) @
      phase_calls (WRITE data) @ phase_calls STOP)"
    by (intro performs_then performs_start performs_write_bytes performs_offset performs_stop)
  then have p: "performs ?B (phases_calls (write_phases addr off data))"
    by (simp add: phases_calls_def write_phases_def)
  have "prints_in (write_bytes D data) A"
    using A by (cases data) (simp_all add: prints_in_write_int prints_in_write_list)
  then have q: "prints_in ?B A"
    by (intro prints_in_then prints_in_start prints_in_stop prints_in_write_int prints_in_offset)
  from assms(1) have "try_except ?B (\<lambda>err. then_io (print_io (PrintStr err)) (return_io ())) s
      = (r, s')"
    by (simp add: print_then_return [symmetric])
  then obtain new rb ps where *: "trace s' = trace s @ new"
    "run_ok (phases_calls (write_phases addr off data)) new rb" "set ps \<subseteq> A"
    "?B s = (rb, s'\<lparr>stdout := stdout s @ ps\<rparr>)"
    "r = (case rb of Inr x \<Rightarrow> Inr x | Inl (ConnectionError msg) \<Rightarrow> Inr ()
                | Inl USBError \<Rightarrow> Inl USBError)"
    "stdout s' = stdout s @ ps @
           (case rb of Inl (ConnectionError msg) \<Rightarrow> [PrintStr msg] | _ \<Rightarrow> [])"
    by (rule try_print_run [OF _ p q])
  from *(5) have "r = (case rb of Inl USBError \<Rightarrow> Inl USBError | _ \<Rightarrow> Inr ())"
    by (auto split: sum.splits exn.splits)
  with * show thesis
    by (intro that [of new rb ps]) auto
qed

lemma read_body:
  fixes D addr off len
  defines "P \<equiv> then_io (start D)
       (then_io (write_bytes D (PyInt (push_bit 1 addr)))
       (then_io (write_bytes D (PyInt off))
       (then_io (stop D)
       (then_io (start D)
       (then_io (write_bytes D (PyInt (push_bit 1 addr OR 1)))
       (read_bytes D len))))))"
  shows "performs P (butlast (phases_calls (read_phases addr off len)))"
    and "prints_in P {}"
    and "P s0 = (Inr rval, s1) \<Longrightarrow> last (trace s1) = DevRead EP_IN len (Some 100) (Returns rval)"
proof -
  have "performs P (phase_calls START @ phase_calls (WRITE (PyInt (push_bit 1 addr))) @
      phase_calls (WRITE (PyInt off)) @ phase_calls STOP @ phase_calls START @
      phase_calls (WRITE (PyInt (push_bit 1 addr OR 1))) @ phase_calls (READ len))"
    unfolding P_def
    by (intro performs_then performs_start performs_write_bytes performs_stop
        performs_read_bytes)
  then show "performs P (butlast (phases_calls (read_phases addr off len)))"
    by (simp add: phases_calls_def read_phases_def)
  show "prints_in P {}"
    unfolding P_def
    by (intro prints_in_then prints_in_start prints_in_stop prints_in_write_int
        prints_in_read_bytes)
  show "P s0 = (Inr rval, s1) \<Longrightarrow> last (trace s1) = DevRead EP_IN len (Some 100) (Returns rval)"
    unfolding P_def by (elim then_io_InrE) (rule read_bytes_value)
qed

subsection \<open>The acknowledgement check\<close>

text \<open>
  C7. \<open>__check_ack\<close> makes one read of up to 32 (MAX) bytes on the inbound endpoint.
  When the read returns, the result is True iff exactly one byte came back and its bit
  0x80 is clear; every other answer (no byte, several bytes, a byte with 0x80 set) gives
  False, not an exception. Only a read that itself raises makes the check raise.
\<close>

theorem check_ack_true_iff:
  "check_ack D s =
     (case dev_read D (trace s) EP_IN 32 None of
        Returns rval \<Rightarrow> Inr (\<exists>b. rval = [b] \<and> b AND 0x80 = 0)
      | Raises \<Rightarrow> Inl USBError,
      s\<lparr>trace := trace s @ [DevRead EP_IN 32 None (dev_read D (trace s) EP_IN 32 None)]\<rparr>)"
proof (cases "dev_read D (trace s) EP_IN 32 None")
  case (Returns rval)
  have "ack_of rval \<longleftrightarrow> (\<exists>b. rval = [b] \<and> b AND 0x80 = 0)"
    by (cases rval) (auto simp add: ack_of_def)
  with Returns show ?thesis
    by (simp add: check_ack_def I2CCmd_MAX_def io_defs)
next
  case Raises
  then show ?thesis
    by (simp add: check_ack_def I2CCmd_MAX_def io_defs)
qed

theorem check_ack_true_iff_witness:
  "check_ack dev_all_ack world0 =
     (Inr True, \<lparr>trace = [DevRead 0x82 32 None (Returns [0])], stdout = []\<rparr>) \<and>
   check_ack dev_all_nak world0 =
     (Inr False, \<lparr>trace = [DevRead 0x82 32 None (Returns [0x80])], stdout = []\<rparr>) \<and>
   check_ack dev_short_write world0 =
     (Inr False, \<lparr>trace = [DevRead 0x82 32 None (Returns [])], stdout = []\<rparr>)"
  using check_ack_true_iff [of dev_all_ack world0] check_ack_true_iff [of dev_all_nak world0]
    check_ack_true_iff [of dev_short_write world0]
  by (simp add: dev_defs EP_IN_def)

subsection \<open>The speed bands\<close>

text \<open>
  C8. The band of a requested speed is 0 below 100, 1 from 100 up to but excluding 400,
  2 from 400 up to but excluding 750, and 3 from 750 on: one band for every speed, and
  a larger speed never gets a smaller band. The command \<open>set_speed\<close> sends is the
  selector, SET OR the band, END.
\<close>

theorem set_speed_band:
  "(speed < 100 \<longrightarrow> set_speed_sbit speed = 0) \<and>
   (100 \<le> speed \<and> speed < 400 \<longrightarrow> set_speed_sbit speed = 1) \<and>
   (400 \<le> speed \<and> speed < 750 \<longrightarrow> set_speed_sbit speed = 2) \<and>
   (750 \<le> speed \<longrightarrow> set_speed_sbit speed = 3) \<and>
   (speed \<le> speed' \<longrightarrow> set_speed_sbit speed \<le> set_speed_sbit speed') \<and>
   set_speed_cmd speed = [0xaa, 0x60 OR set_speed_sbit speed, 0x00] \<and>
   (\<exists>a. trace (snd (set_speed D speed s)) =
      trace s @ [DevWrite 0x02 (set_speed_cmd speed) a])"
proof -
  have "\<exists>a. trace (snd (set_speed D speed s)) =
      trace s @ [DevWrite 0x02 (set_speed_cmd speed) a]"
    by (cases "dev_write D (trace s) 2 (set_speed_cmd speed)")
      (simp_all add: set_speed_def Let_def io_defs EP_OUT_def)
  then show ?thesis
    by (simp add: set_speed_sbit_def set_speed_cmd_def cmd_defs)
qed

theorem set_speed_band_witness:
  "set_speed_sbit 50 = 0 \<and> set_speed_sbit 150 = 1 \<and> set_speed_sbit 500 = 2 \<and>
   set_speed_sbit 1000 = 3 \<and> set_speed_sbit 99 \<le> set_speed_sbit 100 \<and>
   set_speed_cmd 400 = [0xaa, 0x62, 0x00]"
  using set_speed_band [of 50 150 dev_all_ack world0]
    set_speed_band [of 150 500 dev_all_ack world0]
    set_speed_band [of 500 1000 dev_all_ack world0]
    set_speed_band [of 1000 1000 dev_all_ack world0]
    set_speed_band [of 99 100 dev_all_ack world0]
    set_speed_band [of 400 400 dev_all_ack world0]
  by simp

subsection \<open>The read request\<close>

lemma take_push_disjoint: "take_bit m (n::int) AND push_bit m x = 0"
  by (rule bit_eqI) (auto simp add: bit_and_iff bit_take_bit_iff bit_push_bit_iff)

lemma IN_or_low: "(0xc0 OR n) AND (0x3f::int) = n" if "0 \<le> n" "n < 64"
proof -
  have "(0xc0 OR n) AND (0x3f::int) = (0xc0 AND 0x3f) OR (n AND 0x3f)"
    by (simp add: bit.conj_disj_distrib2)
  also have "(0xc0::int) AND 0x3f = 0"
    by simp
  also have "n AND 0x3f = take_bit 6 n"
    by (simp add: take_bit_eq_mask mask_eq_exp_minus_1)
  also have "take_bit 6 n = n"
    using that by (simp add: take_bit_int_eq_self)
  finally show ?thesis
    by simp
qed

lemma IN_or_high: "(0xc0 OR n) AND (0xc0::int) = 0xc0" if "0 \<le> n" "n < 64"
proof -
  have n: "take_bit 6 n = n"
    using that by (simp add: take_bit_int_eq_self)
  have z: "n AND 0xc0 = 0"
    using take_push_disjoint [of 6 n 3] by (simp add: n)
  have "(0xc0 OR n) AND (0xc0::int) = (0xc0 AND 0xc0) OR (n AND 0xc0)"
    by (simp add: bit.conj_disj_distrib2)
  then show ?thesis
    by (simp add: z)
qed

text \<open>
  C10. For a read length from 0 through 32, the opcode byte of the read request is
  IN OR the length; its top two bits are 0xc0 and its low six bits are the length, so
  that two lengths of this range with the same opcode byte are equal.
\<close>

theorem read_request_opcode:
  assumes "0 \<le> n" and "n \<le> 32"
  shows "read_bytes_cmd n = [0xaa, I2CCmd_IN OR n, 0x00] \<and>
    (I2CCmd_IN OR n) AND 0xc0 = 0xc0 \<and>
    (I2CCmd_IN OR n) AND 0x3f = n \<and>
    (\<forall>m. 0 \<le> m \<and> m \<le> 32 \<and> I2CCmd_IN OR m = I2CCmd_IN OR n \<longrightarrow> m = n)"
proof -
  have low: "(I2CCmd_IN OR k) AND 0x3f = k" if "0 \<le> k" "k \<le> 32" for k
    using that IN_or_low [of k] by (simp add: I2CCmd_IN_def)
  have inj: "m = n" if m: "0 \<le> m" "m \<le> 32" and eq: "I2CCmd_IN OR m = I2CCmd_IN OR n" for m
  proof -
    have "m = (I2CCmd_IN OR m) AND 0x3f"
      using low [OF m] by (rule sym)
    also have "\<dots> = (I2CCmd_IN OR n) AND 0x3f"
      by (simp only: eq)
    also have "\<dots> = n"
      by (rule low [OF assms])
    finally show ?thesis .
  qed
  have high: "(I2CCmd_IN OR n) AND 0xc0 = 0xc0"
    using assms IN_or_high [of n] by (simp add: I2CCmd_IN_def)
  have cmd: "read_bytes_cmd n = [0xaa, I2CCmd_IN OR n, 0x00]"
    by (simp add: read_bytes_cmd_def VendorCmd_I2C_def I2CCmd_END_def)
  from cmd high low [OF assms] inj show ?thesis
    by blast
qed

theorem read_request_opcode_witness:
  "(0::int) \<le> 32 \<and> read_bytes_cmd 32 = [0xaa, 0xe0, 0x00] \<and>
   (I2CCmd_IN OR 32) AND 0xc0 = 0xc0 \<and> (I2CCmd_IN OR 32) AND 0x3f = 32"
proof -
  have e: "I2CCmd_IN OR 32 = 0xe0"
    by (simp add: I2CCmd_IN_def)
  have h: "(0::int) \<le> 32" "(32::int) \<le> 32"
    by simp_all
  from read_request_opcode [OF h]
  have "read_bytes_cmd 32 = [0xaa, I2CCmd_IN OR 32, 0x00] \<and>
    (I2CCmd_IN OR 32) AND 0xc0 = 0xc0 \<and> (I2CCmd_IN OR 32) AND 0x3f = 32"
    by blast
  then show ?thesis
    by (simp add: e)
qed

lemmas run_defs = detect_def write_byte_data_def write_i2c_block_data_def read_byte_data_def
  read_i2c_block_data_def start_def stop_def start_cmd_def stop_cmd_def write_bytes_def
  write_bytes_cmd_def check_ack_def ack_of_def read_bytes_def read_bytes_cmd_def Let_def

subsection \<open>detect\<close>




subsection \<open>A NAK ends the call\<close>

lemma write_run_nak:
  assumes run: "try_except
       (then_io (start D)
       (then_io (write_bytes D (PyInt (push_bit 1 addr)))
       (then_io (case off of Some off' \<Rightarrow> write_bytes D (PyInt off') | None \<Rightarrow> return_io ())
       (then_io (write_bytes D data)
       (stop D)))))
       (\<lambda>err. print_io (PrintStr err)) s = (r, s')"
    and A: "\<And>xs. data = PyList xs \<Longrightarrow> PrintList xs \<in> A"
    and tr: "trace s' = trace s @ pre @ e # post" and nak: "is_nak e"
  shows "post = [] \<and> r = Inr () \<and>
    (\<exists>ps. stdout s' = stdout s @ ps @ [PrintStr ''I2C ACK not received''] \<and> set ps \<subseteq> A)"
proof -
  from run A obtain new and rb :: "exn + unit" and ps where *: "trace s' = trace s @ new"
    "run_ok (phases_calls (write_phases addr off data)) new rb"
    "set ps \<subseteq> A"
    "r = (case rb of Inl USBError \<Rightarrow> Inl USBError | _ \<Rightarrow> Inr ())"
    "stdout s' = stdout s @ ps @
           (case rb of Inl (ConnectionError msg) \<Rightarrow> [PrintStr msg] | _ \<Rightarrow> [])"
    by (rule write_run)
  from *(1) tr have "new = pre @ e # post"
    by simp
  with *(2) nak have "post = []" "rb = Inl (ConnectionError ''I2C ACK not received'')"
    using run_ok_nak_last by blast+
  with * show ?thesis
    by auto
qed

lemma read_run_nak:
  assumes run: "try_except
      (bind_io (P :: 'b io) (\<lambda>rval.
         try_except (then_io (stop D) (return_io (g rval)))
           (\<lambda>err. then_io (print_io (PrintStr err)) (return_io (g rval)))))
      (\<lambda>err. then_io (print_io (PrintStr err)) (return_io d)) s = (r, s')"
    and p: "performs P cs" and q: "prints_in P {}" and ne: "cs \<noteq> []"
    and v: "\<And>s0 rval s1. P s0 = (Inr rval, s1) \<Longrightarrow> last (trace s1) = ev rval"
    and tr: "trace s' = trace s @ pre @ e # post" and nak: "is_nak e"
  shows "post = [] \<and> r = Inr d \<and> stdout s' = stdout s @ [PrintStr ''I2C ACK not received'']"
proof (rule read_shape_cases [OF run p q ne v])
  fix new x
  assume a: "trace s' = trace s @ new" "run_ok cs new (Inl x :: exn + 'b)"
    "r = (case x of ConnectionError msg \<Rightarrow> Inr d | USBError \<Rightarrow> Inl USBError)"
    "stdout s' = stdout s @
       (case x of ConnectionError msg \<Rightarrow> [PrintStr msg] | USBError \<Rightarrow> [])"
  from a(1) tr have "new = pre @ e # post"
    by simp
  with a(2) nak have "post = []" "x = ConnectionError ''I2C ACK not received''"
    using run_ok_nak_last by blast+
  with a show "post = [] \<and> r = Inr d \<and>
      stdout s' = stdout s @ [PrintStr ''I2C ACK not received'']"
    by simp
next
  fix n1 rval st and rs :: "exn + unit"
  assume b: "trace s' = trace s @ n1 @ [st]" "run_ok cs n1 (Inr rval)"
    "run_ok (phase_calls STOP) [st] rs"
  from b(1) tr have "pre @ e # post = n1 @ [st]"
    by simp
  then have "e \<in> set (n1 @ [st])"
    by (metis in_set_conv_decomp)
  moreover have "event_ok y" if "y \<in> set n1" for y
    using b(2) that by (simp add: run_ok_def)
  moreover have "\<not> is_nak st"
    using b(3) by (cases st) (auto simp add: run_ok_def stop_cmd_def)
  ultimately show "post = [] \<and> r = Inr d \<and>
      stdout s' = stdout s @ [PrintStr ''I2C ACK not received'']"
    using nak nak_not_ok by auto
qed

text \<open>
  C2, as the code has it. In \<open>write_byte_data\<close>, \<open>write_i2c_block_data\<close>,
  \<open>read_byte_data\<close> and \<open>read_i2c_block_data\<close>, an ACK check answered with a NAK is
  the last call the operation makes on the channel: no further phase is sent, and no
  STOP either. The ConnectionError is caught inside the operation, which prints
  "I2C ACK not received" and returns None: the caller gets no error and is not told which
  phase failed.
\<close>

theorem nak_ends_the_call:
  assumes "trace s' = trace s @ pre @ e # post" and "is_nak e"
  shows "(write_byte_data D addr off byte s = (ra, s') \<longrightarrow>
       post = [] \<and> ra = Inr () \<and>
       stdout s' = stdout s @ [PrintStr ''I2C ACK not received'']) \<and>
    (write_i2c_block_data D addr off data s = (rb, s') \<longrightarrow>
       post = [] \<and> rb = Inr () \<and>
       (\<exists>ps. stdout s' = stdout s @ ps @ [PrintStr ''I2C ACK not received''] \<and>
          set ps \<subseteq> {PrintList data})) \<and>
    (read_byte_data D addr off' s = (rc, s') \<longrightarrow>
       post = [] \<and> rc = Inr None \<and>
       stdout s' = stdout s @ [PrintStr ''I2C ACK not received'']) \<and>
    (read_i2c_block_data D addr off' len s = (rd, s') \<longrightarrow>
       post = [] \<and> rd = Inr None \<and>
       stdout s' = stdout s @ [PrintStr ''I2C ACK not received''])"
proof (intro conjI impI)
  assume "write_byte_data D addr off byte s = (ra, s')"
  then have "post = [] \<and> ra = Inr () \<and>
    (\<exists>ps. stdout s' = stdout s @ ps @ [PrintStr ''I2C ACK not received''] \<and> set ps \<subseteq> {})"
    unfolding write_byte_data_def using _ assms by (rule write_run_nak) simp
  then show "post = []" "ra = Inr ()"
    "stdout s' = stdout s @ [PrintStr ''I2C ACK not received'']"
    by auto
next
  assume "write_i2c_block_data D addr off data s = (rb, s')"
  then have "post = [] \<and> rb = Inr () \<and>
    (\<exists>ps. stdout s' = stdout s @ ps @ [PrintStr ''I2C ACK not received''] \<and>
       set ps \<subseteq> {PrintList data})"
    unfolding write_i2c_block_data_def using _ assms by (rule write_run_nak) simp
  then show "post = []" "rb = Inr ()"
    "\<exists>ps. stdout s' = stdout s @ ps @ [PrintStr ''I2C ACK not received''] \<and>
       set ps \<subseteq> {PrintList data}"
    by auto
next
  have ne: "butlast (phases_calls (read_phases addr off' n)) \<noteq> []" for n
    by (simp add: phases_calls_def read_phases_def)
  assume "read_byte_data D addr off' s = (rc, s')"
  then have "post = [] \<and> rc = Inr None \<and>
      stdout s' = stdout s @ [PrintStr ''I2C ACK not received'']"
    unfolding read_byte_data_def then_bind_assoc
    using read_body(1,2) [of D addr off' 1] ne read_body(3) [of D addr off' 1] assms
    by (rule read_run_nak [where g = "\<lambda>rval. Some (rval ! 0)"])
  then show "post = []" "rc = Inr None"
    "stdout s' = stdout s @ [PrintStr ''I2C ACK not received'']"
    by auto
next
  have ne: "butlast (phases_calls (read_phases addr off' n)) \<noteq> []" for n
    by (simp add: phases_calls_def read_phases_def)
  assume "read_i2c_block_data D addr off' len s = (rd, s')"
  then have "post = [] \<and> rd = Inr None \<and>
      stdout s' = stdout s @ [PrintStr ''I2C ACK not received'']"
    unfolding read_i2c_block_data_def then_bind_assoc
    using read_body(1,2) [of D addr off' len] ne read_body(3) [of D addr off' len] assms
    by (rule read_run_nak [where g = Some])
  then show "post = []" "rd = Inr None"
    "stdout s' = stdout s @ [PrintStr ''I2C ACK not received'']"
    by auto
qed


theorem nak_ends_the_call_witness:
  "is_nak (DevRead 0x82 32 None (Returns [0x80])) \<and>
   read_i2c_block_data dev_all_nak 0x50 0x10 3 world0 =
     (Inr None,
      \<lparr>trace = [DevWrite 0x02 [0xaa, 0x74, 0x00] (Returns 3),
                DevWrite 0x02 [0xaa, 0x80, 0xa0, 0x00] (Returns 4)] @
               DevRead 0x82 32 None (Returns [0x80]) # [],
       stdout = [PrintStr ''I2C ACK not received'']\<rparr>)"
proof -
  let ?pre = "[DevWrite 0x02 [0xaa, 0x74, 0x00] (Returns 3),
                DevWrite 0x02 [0xaa, 0x80, 0xa0, 0x00] (Returns 4)]"
  let ?e = "DevRead 0x82 32 None (Returns [0x80])"
  obtain r w where run: "read_i2c_block_data dev_all_nak 0x50 0x10 3 world0 = (r, w)"
    and w: "trace w = trace world0 @ ?pre @ ?e # []"
    by (simp add: run_defs io_defs cmd_defs dev_defs)
  have nak: "is_nak ?e"
    by (simp add: ack_of_def)
  from nak_ends_the_call [OF w nak, where D = dev_all_nak and addr = "0x50" and off' = "0x10"
      and len = 3 and rd = r] run
  have "r = Inr None" "stdout w = stdout world0 @ [PrintStr ''I2C ACK not received'']"
    by simp_all
  with run w nak show ?thesis
    by (simp add: world0_def)
qed

text \<open>A device that acknowledges nothing: the write returns normally after the address
  phase, and the channel has seen no STOP.\<close>

theorem nak_no_stop_counterexample:
  "write_byte_data dev_all_nak 0x50 (Some 0x10) 0x7f world0 =
     (Inr (),
      \<lparr>trace = [DevWrite 0x02 [0xaa, 0x74, 0x00] (Returns 3),
                DevWrite 0x02 [0xaa, 0x80, 0xa0, 0x00] (Returns 4),
                DevRead 0x82 32 None (Returns [0x80])],
       stdout = [PrintStr ''I2C ACK not received'']\<rparr>)"
  by (simp add: run_defs io_defs cmd_defs dev_defs)

subsection \<open>The runs of the two reads\<close>

lemma read_run:
  assumes run: "try_except
      (bind_io (P :: int list io) (\<lambda>rval.
         try_except (then_io (stop D) (return_io (Some (g rval))))
           (\<lambda>err. then_io (print_io (PrintStr err)) (return_io (Some (g rval))))))
      (\<lambda>err. then_io (print_io (PrintStr err)) (return_io None)) s = (r, s')"
    and p: "performs P cs" and q: "prints_in P {}" and ne: "cs \<noteq> []"
    and v: "\<And>s0 rval s1. P s0 = (Inr rval, s1) \<Longrightarrow>
      last (trace s1) = DevRead EP_IN len (Some 100) (Returns rval)"
  shows "\<exists>new. trace s' = trace s @ new \<and> new \<noteq> [] \<and>
    prefix (map call_of new) (cs @ phase_calls STOP) \<and>
    (\<forall>e \<in> set (butlast new). event_ok e) \<and>
    (\<forall>y. r = Inr (Some y) \<longrightarrow>
       map call_of new = cs @ phase_calls STOP \<and>
       (\<exists>rval. y = g rval \<and> int (length rval) = len \<and>
          new ! (length cs - 1) = DevRead EP_IN len (Some 100) (Returns rval))) \<and>
    (map call_of new = cs @ phase_calls STOP \<and> (\<forall>e \<in> set new. event_ok e) \<longrightarrow>
       (\<exists>y. r = Inr (Some y))) \<and>
    (\<forall>msg. r \<noteq> Inl (ConnectionError msg)) \<and>
    (r = Inr None \<longrightarrow> (\<exists>e \<in> set new. \<not> event_ok e \<and> \<not> raised e)) \<and>
    ((\<exists>e \<in> set new. \<not> event_ok e \<and> \<not> raised e) \<longrightarrow>
       (\<exists>x. r = Inr x) \<and> (\<exists>msg. stdout s' = stdout s @ [PrintStr msg]))"
proof (rule read_shape_cases [OF run p q ne v])
  fix new x
  assume a: "trace s' = trace s @ new" "run_ok cs new (Inl x :: exn + int list)"
    "r = (case x of ConnectionError msg \<Rightarrow> Inr None | USBError \<Rightarrow> Inl USBError)"
    "stdout s' = stdout s @
       (case x of ConnectionError msg \<Rightarrow> [PrintStr msg] | USBError \<Rightarrow> [])"
  from a(2) have l: "new \<noteq> []" "fails_with (last new) x"
    and pre: "prefix (map call_of new) cs" and bl: "\<forall>e \<in> set (butlast new). event_ok e"
    by (simp_all add: run_ok_def)
  from l have bad: "last new \<in> set new" "\<not> event_ok (last new)"
    by (simp_all add: fails_not_ok)
  have 1: "prefix (map call_of new) (cs @ phase_calls STOP)"
    using pre by (rule prefix_prefix)
  have 2: "\<forall>y. r \<noteq> Inr (Some y)"
    using a(3) by (cases x) simp_all
  have 3: "\<not> (\<forall>e \<in> set new. event_ok e)"
    using bad by blast
  have 4: "\<forall>msg. r \<noteq> Inl (ConnectionError msg)"
    using a(3) by (cases x) simp_all
  have 5: "r = Inr None \<longrightarrow> (\<exists>e \<in> set new. \<not> event_ok e \<and> \<not> raised e)"
  proof
    assume "r = Inr None"
    with a(3) obtain msg where "x = ConnectionError msg"
      by (cases x) simp_all
    with l(2) have "\<not> raised (last new)"
      by (auto dest: fails_with_raised)
    with bad show "\<exists>e \<in> set new. \<not> event_ok e \<and> \<not> raised e"
      by blast
  qed
  have 6: "(\<exists>x. r = Inr x) \<and> (\<exists>msg. stdout s' = stdout s @ [PrintStr msg])"
    if "\<exists>e \<in> set new. \<not> event_ok e \<and> \<not> raised e"
  proof -
    from that obtain e where e: "e \<in> set new" "\<not> event_ok e" "\<not> raised e"
      by blast
    from a(2) e(1,2) obtain x' where "Inl x = (Inl x' :: exn + int list)" "fails_with e x'"
      by (rule run_ok_bad_is_last)
    with e(3) obtain msg where "x = ConnectionError msg"
      by (auto elim: fails_with_cases)
    with a(3,4) show ?thesis
      by simp
  qed
  from a(1) l(1) 1 bl 2 3 4 5 6 show ?thesis
    by blast
next
  fix n1 rval st and rs :: "exn + unit"
  assume b: "trace s' = trace s @ n1 @ [st]" "run_ok cs n1 (Inr rval)"
    "last n1 = DevRead EP_IN len (Some 100) (Returns rval)"
    "run_ok (phase_calls STOP) [st] rs"
    "r = (case rs of Inl USBError \<Rightarrow> Inl USBError | _ \<Rightarrow> Inr (Some (g rval)))"
    "stdout s' = stdout s @
       (case rs of Inl (ConnectionError msg) \<Rightarrow> [PrintStr msg] | _ \<Rightarrow> [])"
  let ?new = "n1 @ [st]"
  from b(2) have n1: "map call_of n1 = cs" "\<forall>e \<in> set n1. event_ok e"
    by (simp_all add: run_ok_def)
  with ne have nn: "n1 \<noteq> []" "length n1 = length cs"
    by auto
  from b(4) have st: "[call_of st] = phase_calls STOP"
    by (simp add: run_ok_def)
  have 0: "map call_of ?new = cs @ phase_calls STOP"
    using n1(1) st by simp
  then have 1: "prefix (map call_of ?new) (cs @ phase_calls STOP)"
    by simp
  have bl: "\<forall>e \<in> set (butlast ?new). event_ok e"
    using n1(2) by (simp add: butlast_append)
  from nn n1(2) b(3) have "event_ok (DevRead EP_IN len (Some 100) (Returns rval))"
    using last_in_set by metis
  then have len: "int (length rval) = len"
    by simp
  from nn have "length cs - 1 < length n1"
    by (cases n1) auto
  then have "?new ! (length cs - 1) = n1 ! (length cs - 1)"
    by (simp add: nth_append)
  also have "\<dots> = last n1"
    using nn by (simp add: last_conv_nth)
  finally have "?new ! (length cs - 1) = last n1" .
  with b(3) have nth: "?new ! (length cs - 1) = DevRead EP_IN len (Some 100) (Returns rval)"
    by simp
  have 2: "\<forall>y. r = Inr (Some y) \<longrightarrow>
       map call_of ?new = cs @ phase_calls STOP \<and>
       (\<exists>rval. y = g rval \<and> int (length rval) = len \<and>
          ?new ! (length cs - 1) = DevRead EP_IN len (Some 100) (Returns rval))"
    using 0 len nth b(5) by (auto split: sum.splits exn.splits)
  have 3: "\<exists>y. r = Inr (Some y)" if "\<forall>e \<in> set ?new. event_ok e"
  proof -
    from that have "map call_of [st] = phase_calls STOP \<and> (\<forall>e \<in> set [st]. event_ok e)"
      using st by simp
    then obtain u where "rs = Inr u"
      using run_ok_Inr_iff [OF b(4)] by blast
    with b(5) show ?thesis
      by simp
  qed
  have 4: "\<forall>msg. r \<noteq> Inl (ConnectionError msg)"
    using b(5) by (auto split: sum.splits exn.splits)
  have 5: "r \<noteq> Inr None"
    using b(5) by (auto split: sum.splits exn.splits)
  have 6: "(\<exists>x. r = Inr x) \<and> (\<exists>msg. stdout s' = stdout s @ [PrintStr msg])"
    if "\<exists>e \<in> set ?new. \<not> event_ok e \<and> \<not> raised e"
  proof -
    from that n1(2) have e: "\<not> event_ok st" "\<not> raised st"
      by auto
    have "st \<in> set [st]"
      by simp
    with b(4) obtain x' where "rs = Inl x'" "fails_with st x'"
      using e(1) by (rule run_ok_bad_is_last)
    with e(2) obtain msg where "rs = Inl (ConnectionError msg)"
      by (auto elim: fails_with_cases)
    with b(5,6) show ?thesis
      by simp
  qed
  have "?new \<noteq> []"
    by simp
  with b(1) 1 bl 2 3 4 5 6 show ?thesis
    by blast
qed


lemma read_phases_split:
  "butlast (phases_calls (read_phases addr off len)) @ phase_calls STOP =
     phases_calls (read_phases addr off len)"
  "butlast (phases_calls (read_phases addr off len)) \<noteq> []"
  "length (butlast (phases_calls (read_phases addr off len))) - 1 = 10"
  by (simp_all add: phases_calls_def read_phases_def)


lemma read_i2c_block_data_run:
  assumes "read_i2c_block_data D addr off len s = (r, s')"
  shows "\<exists>new. trace s' = trace s @ new \<and> new \<noteq> [] \<and>
    prefix (map call_of new) (phases_calls (read_phases addr off len)) \<and>
    (\<forall>e \<in> set (butlast new). event_ok e) \<and>
    (\<forall>y. r = Inr (Some y) \<longrightarrow>
       map call_of new = phases_calls (read_phases addr off len) \<and>
       (\<exists>rval. y = rval \<and> int (length rval) = len \<and>
          new ! 10 = DevRead EP_IN len (Some 100) (Returns rval))) \<and>
    (map call_of new = phases_calls (read_phases addr off len) \<and>
       (\<forall>e \<in> set new. event_ok e) \<longrightarrow> (\<exists>y. r = Inr (Some y))) \<and>
    (\<forall>msg. r \<noteq> Inl (ConnectionError msg)) \<and>
    (r = Inr None \<longrightarrow> (\<exists>e \<in> set new. \<not> event_ok e \<and> \<not> raised e)) \<and>
    ((\<exists>e \<in> set new. \<not> event_ok e \<and> \<not> raised e) \<longrightarrow>
       (\<exists>x. r = Inr x) \<and> (\<exists>msg. stdout s' = stdout s @ [PrintStr msg]))"
  using read_run [where g = "\<lambda>rval. rval", OF assms [unfolded read_i2c_block_data_def then_bind_assoc]
      read_body(1,2) read_phases_split(2) read_body(3)]
  unfolding read_phases_split .

text \<open>The same runs, with the result, the trace and the output determined exactly by the
  answers of the channel.\<close>

lemma read_run_exact:
  assumes run: "try_except
      (bind_io (P :: int list io) (\<lambda>rval.
         try_except (then_io (stop D) (return_io (Some (g rval))))
           (\<lambda>err. then_io (print_io (PrintStr err)) (return_io (Some (g rval))))))
      (\<lambda>err. then_io (print_io (PrintStr err)) (return_io None)) s = (r, s')"
    and p: "performs P cs" and q: "prints_in P {}" and ne: "cs \<noteq> []"
    and v: "\<And>s0 rval s1. P s0 = (Inr rval, s1) \<Longrightarrow>
      last (trace s1) = DevRead EP_IN len (Some 100) (Returns rval)"
  shows "\<exists>new. trace s' = trace s @ new \<and> new \<noteq> [] \<and>
    prefix (map call_of new) (cs @ phase_calls STOP) \<and>
    (\<forall>e \<in> set (butlast new). event_ok e) \<and>
    (event_ok (last new) \<longrightarrow> map call_of new = cs @ phase_calls STOP) \<and>
    (\<forall>y. r = Inr (Some y) \<longleftrightarrow>
       map call_of new = cs @ phase_calls STOP \<and> \<not> raised (last new) \<and>
       (\<exists>rval. y = g rval \<and> int (length rval) = len \<and>
          new ! (length cs - 1) = DevRead EP_IN len (Some 100) (Returns rval))) \<and>
    (r = Inr None \<longleftrightarrow> map call_of new \<noteq> cs @ phase_calls STOP \<and> \<not> raised (last new)) \<and>
    (r = Inl USBError \<longleftrightarrow> raised (last new)) \<and>
    (\<forall>msg. r \<noteq> Inl (ConnectionError msg)) \<and>
    (if \<not> event_ok (last new) \<and> \<not> raised (last new)
     then \<exists>msg. stdout s' = stdout s @ [PrintStr msg]
     else stdout s' = stdout s)"
proof (rule read_shape_cases [OF run p q ne v])
  fix new x
  assume a: "trace s' = trace s @ new" "run_ok cs new (Inl x :: exn + int list)"
    "r = (case x of ConnectionError msg \<Rightarrow> Inr None | USBError \<Rightarrow> Inl USBError)"
    "stdout s' = stdout s @
       (case x of ConnectionError msg \<Rightarrow> [PrintStr msg] | USBError \<Rightarrow> [])"
  from a(2) have l: "new \<noteq> []" "fails_with (last new) x"
    and pre: "prefix (map call_of new) cs" and bl: "\<forall>e \<in> set (butlast new). event_ok e"
    by (simp_all add: run_ok_def)
  from l have bad: "\<not> event_ok (last new)"
    by (simp add: fails_not_ok)
  have 1: "prefix (map call_of new) (cs @ phase_calls STOP)"
    using pre by (rule prefix_prefix)
  from pre have "length (map call_of new) \<le> length cs"
    by (rule prefix_length_le)
  have short: "map call_of new \<noteq> cs @ phase_calls STOP"
  proof
    assume "map call_of new = cs @ phase_calls STOP"
    then have "length (map call_of new) = length (cs @ phase_calls STOP)"
      by (rule arg_cong)
    with \<open>length (map call_of new) \<le> length cs\<close> show False
      by simp
  qed
  have rx: "raised (last new) \<longleftrightarrow> x = USBError"
    using l(2) by (auto elim: fails_with_cases)
  have 2: "\<forall>y. r = Inr (Some y) \<longleftrightarrow>
       map call_of new = cs @ phase_calls STOP \<and> \<not> raised (last new) \<and>
       (\<exists>rval. y = g rval \<and> int (length rval) = len \<and>
          new ! (length cs - 1) = DevRead EP_IN len (Some 100) (Returns rval))"
    using a(3) short by (cases x) simp_all
  have 3: "r = Inr None \<longleftrightarrow> map call_of new \<noteq> cs @ phase_calls STOP \<and> \<not> raised (last new)"
    using a(3) short rx by (cases x) simp_all
  have 4: "r = Inl USBError \<longleftrightarrow> raised (last new)"
    using a(3) rx by (cases x) simp_all
  have 5: "\<forall>msg. r \<noteq> Inl (ConnectionError msg)"
    using a(3) by (cases x) simp_all
  have 6: "if \<not> event_ok (last new) \<and> \<not> raised (last new)
     then \<exists>msg. stdout s' = stdout s @ [PrintStr msg]
     else stdout s' = stdout s"
    using a(4) bad rx by (cases x) simp_all
  from a(1) l(1) 1 bl bad 2 3 4 5 6 show ?thesis
    by blast
next
  fix n1 rval st and rs :: "exn + unit"
  assume b: "trace s' = trace s @ n1 @ [st]" "run_ok cs n1 (Inr rval)"
    "last n1 = DevRead EP_IN len (Some 100) (Returns rval)"
    "run_ok (phase_calls STOP) [st] rs"
    "r = (case rs of Inl USBError \<Rightarrow> Inl USBError | _ \<Rightarrow> Inr (Some (g rval)))"
    "stdout s' = stdout s @
       (case rs of Inl (ConnectionError msg) \<Rightarrow> [PrintStr msg] | _ \<Rightarrow> [])"
  let ?new = "n1 @ [st]"
  from b(2) have n1: "map call_of n1 = cs" "\<forall>e \<in> set n1. event_ok e"
    by (simp_all add: run_ok_def)
  with ne have nn: "n1 \<noteq> []" "length n1 = length cs"
    by auto
  from b(4) have st: "[call_of st] = phase_calls STOP"
    by (simp add: run_ok_def)
  have 0: "map call_of ?new = cs @ phase_calls STOP"
    using n1(1) st by simp
  then have 1: "prefix (map call_of ?new) (cs @ phase_calls STOP)"
    by simp
  have bl: "\<forall>e \<in> set (butlast ?new). event_ok e"
    using n1(2) by (simp add: butlast_append)
  from nn n1(2) b(3) have "event_ok (DevRead EP_IN len (Some 100) (Returns rval))"
    using last_in_set by metis
  then have len: "int (length rval) = len"
    by simp
  from nn have "length cs - 1 < length n1"
    by (cases n1) auto
  then have "?new ! (length cs - 1) = n1 ! (length cs - 1)"
    by (simp add: nth_append)
  also have "\<dots> = last n1"
    using nn by (simp add: last_conv_nth)
  finally have nth: "?new ! (length cs - 1) = DevRead EP_IN len (Some 100) (Returns rval)"
    using b(3) by simp
  have rU: "rs = Inl USBError \<longleftrightarrow> raised st"
    using run_ok_USBError_iff [OF b(4)] by simp
  have rC: "(\<exists>msg. rs = Inl (ConnectionError msg)) \<longleftrightarrow> \<not> event_ok st \<and> \<not> raised st"
    using run_ok_ConnectionError_iff [OF b(4)] by simp
  have 2: "\<forall>y. r = Inr (Some y) \<longleftrightarrow>
       map call_of ?new = cs @ phase_calls STOP \<and> \<not> raised (last ?new) \<and>
       (\<exists>rval. y = g rval \<and> int (length rval) = len \<and>
          ?new ! (length cs - 1) = DevRead EP_IN len (Some 100) (Returns rval))"
    using 0 len nth b(5) rU by (auto split: sum.splits exn.splits)
  have 3: "r = Inr None \<longleftrightarrow>
      map call_of ?new \<noteq> cs @ phase_calls STOP \<and> \<not> raised (last ?new)"
    using 0 b(5) by (auto split: sum.splits exn.splits)
  have 4: "r = Inl USBError \<longleftrightarrow> raised (last ?new)"
    using b(5) rU by (auto split: sum.splits exn.splits)
  have 5: "\<forall>msg. r \<noteq> Inl (ConnectionError msg)"
    using b(5) by (auto split: sum.splits exn.splits)
  have 6: "if \<not> event_ok (last ?new) \<and> \<not> raised (last ?new)
     then \<exists>msg. stdout s' = stdout s @ [PrintStr msg]
     else stdout s' = stdout s"
  proof (cases "\<not> event_ok st \<and> \<not> raised st")
    case True
    with rC obtain msg where "rs = Inl (ConnectionError msg)"
      by blast
    with b(6) True show ?thesis
      by simp
  next
    case False
    with rC have "\<nexists>msg. rs = Inl (ConnectionError msg)"
      by blast
    with b(6) have "stdout s' = stdout s"
      by (auto split: sum.splits exn.splits)
    with False show ?thesis
      by auto
  qed
  have "?new \<noteq> []"
    by simp
  with b(1) 0 1 bl 2 3 4 5 6 show ?thesis
    by blast
qed


lemma read_i2c_block_data_exact:
  assumes "read_i2c_block_data D addr off len s = (r, s')"
  shows "\<exists>new. trace s' = trace s @ new \<and> new \<noteq> [] \<and>
    prefix (map call_of new) (phases_calls (read_phases addr off len)) \<and>
    (\<forall>e \<in> set (butlast new). event_ok e) \<and>
    (event_ok (last new) \<longrightarrow> map call_of new = phases_calls (read_phases addr off len)) \<and>
    (\<forall>y. r = Inr (Some y) \<longleftrightarrow>
       map call_of new = phases_calls (read_phases addr off len) \<and> \<not> raised (last new) \<and>
       (\<exists>rval. y = rval \<and> int (length rval) = len \<and>
          new ! 10 = DevRead EP_IN len (Some 100) (Returns rval))) \<and>
    (r = Inr None \<longleftrightarrow>
       map call_of new \<noteq> phases_calls (read_phases addr off len) \<and> \<not> raised (last new)) \<and>
    (r = Inl USBError \<longleftrightarrow> raised (last new)) \<and>
    (\<forall>msg. r \<noteq> Inl (ConnectionError msg)) \<and>
    (if \<not> event_ok (last new) \<and> \<not> raised (last new)
     then \<exists>msg. stdout s' = stdout s @ [PrintStr msg]
     else stdout s' = stdout s)"
  using read_run_exact [where g = "\<lambda>rval. rval",
      OF assms [unfolded read_i2c_block_data_def then_bind_assoc]
      read_body(1,2) read_phases_split(2) read_body(3)]
  unfolding read_phases_split .

subsection \<open>read_byte_data\<close>




subsection \<open>read_i2c_block_data and the length\<close>

text \<open>
  C3, as the code has it. \<open>read_i2c_block_data\<close> does not check the length. For every
  length, 0 and the lengths above 32 included, its first call on the channel is the START
  command, and it goes through START, WRITE(addr << 1), WRITE(offset), STOP, START,
  WRITE(addr << 1 OR 1), READ(length), STOP, stopping before the end only at a bad answer
  of the channel. It returns a block exactly when the whole sequence was performed and
  the last STOP did not raise, and the block is the very bytes the READ brought, as many
  as the length. It returns None only after a bad answer before the end; no
  ConnectionError of any kind reaches the caller.
\<close>

theorem read_block_any_length:
  assumes "read_i2c_block_data D addr off len s = (r, s')"
  shows "\<exists>new. trace s' = trace s @ new \<and>
    (\<exists>a rest. new = DevWrite EP_OUT start_cmd a # rest) \<and>
    prefix (map call_of new)
      (phases_calls [START, WRITE (PyInt (push_bit 1 addr)), WRITE (PyInt off), STOP,
         START, WRITE (PyInt (push_bit 1 addr OR 1)), READ len, STOP]) \<and>
    (\<forall>e \<in> set (butlast new). event_ok e) \<and>
    (event_ok (last new) \<longrightarrow>
       map call_of new =
         phases_calls [START, WRITE (PyInt (push_bit 1 addr)), WRITE (PyInt off), STOP,
           START, WRITE (PyInt (push_bit 1 addr OR 1)), READ len, STOP]) \<and>
    (\<forall>rval. r = Inr (Some rval) \<longleftrightarrow>
       map call_of new =
         phases_calls [START, WRITE (PyInt (push_bit 1 addr)), WRITE (PyInt off), STOP,
           START, WRITE (PyInt (push_bit 1 addr OR 1)), READ len, STOP] \<and>
       \<not> raised (last new) \<and>
       new ! 10 = DevRead EP_IN len (Some 100) (Returns rval)) \<and>
    (\<forall>rval. r = Inr (Some rval) \<longrightarrow> int (length rval) = len) \<and>
    (map call_of new =
       phases_calls [START, WRITE (PyInt (push_bit 1 addr)), WRITE (PyInt off), STOP,
         START, WRITE (PyInt (push_bit 1 addr OR 1)), READ len, STOP] \<and>
     (\<forall>e \<in> set new. event_ok e) \<longrightarrow>
       (\<exists>rval. r = Inr (Some rval) \<and> int (length rval) = len)) \<and>
    (r = Inr None \<longleftrightarrow>
       map call_of new \<noteq>
         phases_calls [START, WRITE (PyInt (push_bit 1 addr)), WRITE (PyInt off), STOP,
           START, WRITE (PyInt (push_bit 1 addr OR 1)), READ len, STOP] \<and>
       \<not> raised (last new)) \<and>
    (r = Inl USBError \<longleftrightarrow> raised (last new)) \<and>
    (\<forall>msg. r \<noteq> Inl (ConnectionError msg)) \<and>
    (if \<not> event_ok (last new) \<and> \<not> raised (last new)
     then \<exists>msg. stdout s' = stdout s @ [PrintStr msg]
     else stdout s' = stdout s)"
proof -
  let ?full = "phases_calls (read_phases addr off len)"
  from read_i2c_block_data_exact [OF assms] obtain new where new: "trace s' = trace s @ new"
    "new \<noteq> []" "prefix (map call_of new) ?full" "\<forall>e \<in> set (butlast new). event_ok e"
    "event_ok (last new) \<longrightarrow> map call_of new = ?full"
    "\<forall>y. r = Inr (Some y) \<longleftrightarrow>
       map call_of new = ?full \<and> \<not> raised (last new) \<and>
       (\<exists>rval. y = rval \<and> int (length rval) = len \<and>
          new ! 10 = DevRead EP_IN len (Some 100) (Returns rval))"
    "r = Inr None \<longleftrightarrow> map call_of new \<noteq> ?full \<and> \<not> raised (last new)"
    "r = Inl USBError \<longleftrightarrow> raised (last new)"
    "\<forall>msg. r \<noteq> Inl (ConnectionError msg)"
    "if \<not> event_ok (last new) \<and> \<not> raised (last new)
     then \<exists>msg. stdout s' = stdout s @ [PrintStr msg]
     else stdout s' = stdout s"
    by blast
  from new(2) obtain e rest where er: "new = e # rest"
    by (cases new) auto
  with new(3) have "call_of e = WriteCall EP_OUT start_cmd"
    by (simp add: phases_calls_def read_phases_def)
  then obtain a where "e = DevWrite EP_OUT start_cmd a"
    by (cases e) auto
  with er have 2: "\<exists>a rest. new = DevWrite EP_OUT start_cmd a # rest"
    by blast
  have len10: "int (length rval) = len"
    if full: "map call_of new = ?full" and ev: "new ! 10 = DevRead EP_IN len (Some 100) (Returns rval)"
    for rval
  proof -
    from full have l: "length new = 12"
      by (auto simp add: phases_calls_def read_phases_def dest: arg_cong [where f = length])
    then have "butlast new ! 10 = new ! 10" "10 < length (butlast new)"
      by (simp_all add: nth_butlast)
    then have "new ! 10 \<in> set (butlast new)"
      by (metis nth_mem)
    with new(4) ev show ?thesis
      by auto
  qed
  have 6: "\<forall>rval. r = Inr (Some rval) \<longleftrightarrow>
       map call_of new = ?full \<and> \<not> raised (last new) \<and>
       new ! 10 = DevRead EP_IN len (Some 100) (Returns rval)"
    using new(6) len10 by blast
  have 7: "\<forall>rval. r = Inr (Some rval) \<longrightarrow> int (length rval) = len"
    using new(6) by blast
  from read_i2c_block_data_run [OF assms] new(1)
  have good: "map call_of new = ?full \<and> (\<forall>e \<in> set new. event_ok e) \<longrightarrow>
      (\<exists>rval. r = Inr (Some rval) \<and> int (length rval) = len)"
    by (elim exE conjE) auto
  from new(1) 2 new(3,4,5) 6 7 good new(7,8,9,10) show ?thesis
    unfolding read_phases_def by blast
qed

theorem read_block_any_length_witness:
  "read_i2c_block_data dev_all_ack 0x50 0x10 33 world0 =
     (Inr (Some (replicate 33 0x5a)),
      \<lparr>trace = [DevWrite 0x02 [0xaa, 0x74, 0x00] (Returns 3),
                DevWrite 0x02 [0xaa, 0x80, 0xa0, 0x00] (Returns 4),
                DevRead 0x82 32 None (Returns [0]),
                DevWrite 0x02 [0xaa, 0x80, 0x10, 0x00] (Returns 4),
                DevRead 0x82 32 None (Returns [0]),
                DevWrite 0x02 [0xaa, 0x75, 0x00] (Returns 3),
                DevWrite 0x02 [0xaa, 0x74, 0x00] (Returns 3),
                DevWrite 0x02 [0xaa, 0x80, 0xa1, 0x00] (Returns 4),
                DevRead 0x82 32 None (Returns [0]),
                DevWrite 0x02 [0xaa, 0xe1, 0x00] (Returns 3),
                DevRead 0x82 33 (Some 100) (Returns (replicate 33 0x5a)),
                DevWrite 0x02 [0xaa, 0x75, 0x00] (Returns 3)],
       stdout = []\<rparr>) \<and>
   map call_of (trace (snd (read_i2c_block_data dev_all_ack 0x50 0x10 33 world0))) =
     phases_calls [START, WRITE (PyInt (push_bit 1 0x50)), WRITE (PyInt 0x10), STOP,
       START, WRITE (PyInt (push_bit 1 0x50 OR 1)), READ 33, STOP]"
proof -
  let ?w = "\<lparr>trace = [DevWrite 0x02 [0xaa, 0x74, 0x00] (Returns 3),
                DevWrite 0x02 [0xaa, 0x80, 0xa0, 0x00] (Returns 4),
                DevRead 0x82 32 None (Returns [0]),
                DevWrite 0x02 [0xaa, 0x80, 0x10, 0x00] (Returns 4),
                DevRead 0x82 32 None (Returns [0]),
                DevWrite 0x02 [0xaa, 0x75, 0x00] (Returns 3),
                DevWrite 0x02 [0xaa, 0x74, 0x00] (Returns 3),
                DevWrite 0x02 [0xaa, 0x80, 0xa1, 0x00] (Returns 4),
                DevRead 0x82 32 None (Returns [0]),
                DevWrite 0x02 [0xaa, 0xe1, 0x00] (Returns 3),
                DevRead 0x82 33 (Some 100) (Returns (replicate 33 0x5a)),
                DevWrite 0x02 [0xaa, 0x75, 0x00] (Returns 3)],
       stdout = []\<rparr>"
  let ?full = "phases_calls [START, WRITE (PyInt (push_bit 1 0x50)), WRITE (PyInt 0x10), STOP,
       START, WRITE (PyInt (push_bit 1 0x50 OR 1)), READ 33, STOP]"
  have run: "read_i2c_block_data dev_all_ack 0x50 0x10 33 world0 =
      (Inr (Some (replicate 33 0x5a)), ?w)"
    by (simp add: run_defs io_defs cmd_defs dev_defs)
  from read_block_any_length [OF run] obtain new where
    new: "trace ?w = trace world0 @ new"
    and iff: "\<forall>rval. (Inr (Some (replicate 33 0x5a)) :: exn + int list option) = Inr (Some rval) \<longleftrightarrow>
       map call_of new = ?full \<and> \<not> raised (last new) \<and>
       new ! 10 = DevRead EP_IN 33 (Some 100) (Returns rval)"
    by blast
  from iff have "map call_of new = ?full"
    by blast
  moreover from new have "new = trace ?w"
    by (simp add: world0_def)
  ultimately have "map call_of (trace ?w) = ?full"
    by simp
  with run show ?thesis
    by (simp only: snd_conv)
qed

text \<open>Length 0: twelve calls on the channel, and the empty block as the result.\<close>

theorem read_block_zero_length_counterexample:
  "read_i2c_block_data dev_all_ack 0x50 0x10 0 world0 =
     (Inr (Some []),
      \<lparr>trace = [DevWrite 0x02 [0xaa, 0x74, 0x00] (Returns 3),
                DevWrite 0x02 [0xaa, 0x80, 0xa0, 0x00] (Returns 4),
                DevRead 0x82 32 None (Returns [0]),
                DevWrite 0x02 [0xaa, 0x80, 0x10, 0x00] (Returns 4),
                DevRead 0x82 32 None (Returns [0]),
                DevWrite 0x02 [0xaa, 0x75, 0x00] (Returns 3),
                DevWrite 0x02 [0xaa, 0x74, 0x00] (Returns 3),
                DevWrite 0x02 [0xaa, 0x80, 0xa1, 0x00] (Returns 4),
                DevRead 0x82 32 None (Returns [0]),
                DevWrite 0x02 [0xaa, 0xc0, 0x00] (Returns 3),
                DevRead 0x82 0 (Some 100) (Returns []),
                DevWrite 0x02 [0xaa, 0x75, 0x00] (Returns 3)],
       stdout = []\<rparr>)"
  by (simp add: run_defs io_defs cmd_defs dev_defs)

subsection \<open>Errors are caught and printed\<close>





subsection \<open>The write command\<close>

lemma write_bytes_first_call:
  assumes "write_bytes D data s = (r, s')"
  shows "\<exists>a rest. trace s' = trace s @ DevWrite EP_OUT (write_bytes_cmd data) a # rest"
proof -
  from performs_write_bytes [of D data] assms obtain new where
    new: "trace s' = trace s @ new" "run_ok (phase_calls (WRITE data)) new r"
    unfolding performs_def by blast
  from new(2) have "new \<noteq> []"
    by (cases r) (auto simp add: run_ok_def)
  then obtain e rest where er: "new = e # rest"
    by (cases new) auto
  with new(2) have "call_of e = WriteCall EP_OUT (write_bytes_cmd data)"
    by (simp add: run_ok_def)
  then obtain a where "e = DevWrite EP_OUT (write_bytes_cmd data) a"
    by (cases e) auto
  with er new(1) show ?thesis
    by blast
qed

lemma write_bytes_errors:
  assumes "write_bytes D data s = (Inl (ConnectionError msg), s')"
  shows "msg = ''Failed to issue I2C Send Command'' \<or> msg = ''I2C ACK not received''"
  using assms
  by (cases data)
    (auto simp add: write_bytes_def check_ack_def io_defs Let_def
      split: usb_result.splits if_splits)

text \<open>
  C1, as the code has it. For every payload, of any length (0 and the lengths above 32
  included), the command \<open>__write_bytes\<close> builds has length payload + 3: the selector
  0xaa, the OUT opcode, the payload bytes in order, the END marker. The whole command is
  the first call on the channel: no length is checked and nothing is truncated. The only
  ConnectionErrors of \<open>__write_bytes\<close> are the short write and the missing ACK, both
  raised after that call.
\<close>

theorem write_bytes_frame:
  "write_bytes_cmd (PyList xs) = [0xaa, 0x80] @ xs @ [0x00] \<and>
   length (write_bytes_cmd (PyList xs)) = length xs + 3 \<and>
   write_bytes_cmd (PyList xs) ! 0 = VendorCmd_I2C \<and>
   write_bytes_cmd (PyList xs) ! 1 = I2CCmd_OUT \<and>
   last (write_bytes_cmd (PyList xs)) = I2CCmd_END \<and>
   take (length xs) (drop 2 (write_bytes_cmd (PyList xs))) = xs \<and>
   (\<exists>a rest. trace (snd (write_bytes D (PyList xs) s)) =
      trace s @ DevWrite EP_OUT (write_bytes_cmd (PyList xs)) a # rest) \<and>
   (\<forall>msg. fst (write_bytes D (PyList xs) s) = Inl (ConnectionError msg) \<longrightarrow>
      msg = ''Failed to issue I2C Send Command'' \<or> msg = ''I2C ACK not received'')"
proof -
  obtain r s' where run: "write_bytes D (PyList xs) s = (r, s')"
    by (cases "write_bytes D (PyList xs) s")
  have 1: "\<exists>a rest. trace (snd (write_bytes D (PyList xs) s)) =
      trace s @ DevWrite EP_OUT (write_bytes_cmd (PyList xs)) a # rest"
    using write_bytes_first_call [OF run] by (simp add: run)
  have 2: "\<forall>msg. fst (write_bytes D (PyList xs) s) = Inl (ConnectionError msg) \<longrightarrow>
      msg = ''Failed to issue I2C Send Command'' \<or> msg = ''I2C ACK not received''"
    using write_bytes_errors [of D "PyList xs" s _ s'] by (simp add: run)
  have 3: "write_bytes_cmd (PyList xs) = [0xaa, 0x80] @ xs @ [0x00]"
    by (simp add: write_bytes_cmd_def cmd_defs)
  have 4: "write_bytes_cmd (PyList xs) ! 1 = I2CCmd_OUT"
    "write_bytes_cmd (PyList xs) ! 0 = VendorCmd_I2C"
    "last (write_bytes_cmd (PyList xs)) = I2CCmd_END"
    "take (length xs) (drop 2 (write_bytes_cmd (PyList xs))) = xs"
    "length (write_bytes_cmd (PyList xs)) = length xs + 3"
    by (simp_all add: write_bytes_cmd_def)
  from 1 2 3 4 show ?thesis
    by blast
qed

theorem write_bytes_frame_witness:
  "length (write_bytes_cmd (PyList (replicate 33 0x11))) = 36 \<and>
   fst (write_bytes dev_all_nak (PyList (replicate 33 0x11)) world0) =
     Inl (ConnectionError ''I2C ACK not received'') \<and>
   (\<exists>a rest. trace (snd (write_bytes dev_all_nak (PyList (replicate 33 0x11)) world0)) =
      trace world0 @ DevWrite EP_OUT (write_bytes_cmd (PyList (replicate 33 0x11))) a # rest) \<and>
   write_bytes_cmd (PyList (replicate 33 0x11)) = [0xaa, 0x80] @ replicate 33 0x11 @ [0x00]"
proof -
  have run: "fst (write_bytes dev_all_nak (PyList (replicate 33 0x11)) world0) =
     Inl (ConnectionError ''I2C ACK not received'')"
    by (simp add: run_defs io_defs cmd_defs dev_defs)
  from write_bytes_frame [of "replicate 33 0x11" dev_all_nak world0] run show ?thesis
    by (elim conjE) simp
qed

text \<open>The empty payload is sent like any other.\<close>

theorem write_bytes_empty_payload_counterexample:
  "write_bytes dev_all_ack (PyList []) world0 =
     (Inr (),
      \<lparr>trace = [DevWrite 0x02 [0xaa, 0x80, 0x00] (Returns 3),
                DevRead 0x82 32 None (Returns [0])],
       stdout = [PrintList []]\<rparr>)"
  by (simp add: run_defs io_defs cmd_defs dev_defs)

subsection \<open>scan\<close>

lemma probe_each_length:
  "probe_each D addrs s = (Inr ps, s') \<Longrightarrow> length ps = length addrs"
  by (induction addrs arbitrary: s ps)
    (auto split: prod.splits sum.splits)

lemma scan_loop_probe_each:
  "scan_loop D addrs results s =
     (case probe_each D addrs s of
        (Inl e, s') \<Rightarrow> (Inl e, s')
      | (Inr ps, s') \<Rightarrow> (Inr (results @ collected addrs ps), s'))"
proof (induction addrs arbitrary: results s)
  case Nil
  then show ?case
    by (simp add: collected_def)
next
  case (Cons a addrs)
  show ?case
  proof (cases "detect D a s")
    case (Pair r s1)
    show ?thesis
    proof (cases r)
      case (Inl e)
      with Pair show ?thesis
        by simp
    next
      case (Inr p)
      with Pair Cons.IH [of "if p then results @ [a] else results" s1] show ?thesis
        by (auto simp add: collected_def split: prod.splits sum.splits)
    qed
  qed
qed

lemma collected_sorted:
  assumes "sorted_wrt (<) addrs"
  shows "sorted_wrt (<) (collected addrs ps)" and "distinct (collected addrs ps)"
    and "set (collected addrs ps) \<subseteq> set addrs"
proof -
  from assms have "sorted_wrt (<) (map fst (zip addrs ps))"
    by (simp add: map_fst_zip_take sorted_wrt_take)
  then have "sorted_wrt (\<lambda>x y. fst x < fst y) (zip addrs ps)"
    by (simp add: sorted_wrt_map)
  then have "sorted_wrt (\<lambda>x y. fst x < fst y) (filter snd (zip addrs ps))"
    by (rule sorted_wrt_filter)
  then show *: "sorted_wrt (<) (collected addrs ps)"
    by (simp add: collected_def sorted_wrt_map)
  then show "distinct (collected addrs ps)"
    by (simp add: strict_sorted_iff)
  show "set (collected addrs ps) \<subseteq> set addrs"
    by (auto simp add: collected_def dest: set_zip_leftD)
qed

lemma collected_upto:
  assumes "length ps = 250"
  shows "set (collected [0..249] ps) = {a. 0 \<le> a \<and> a \<le> 249 \<and> ps ! nat a}"
proof -
  have len: "length [0..249::int] = 250"
    by simp
  have nth: "[0..249::int] ! i = int i" if "i < 250" for i
    using that nth_upto [of 0 i 249] by simp
  have mem: "a \<in> set (collected [0..249] ps) \<longleftrightarrow> (\<exists>i<250. a = int i \<and> ps ! i)" for a
  proof -
    have "a \<in> set (collected [0..249] ps) \<longleftrightarrow> (a, True) \<in> set (zip [0..249] ps)"
      by (force simp add: collected_def)
    also have "\<dots> \<longleftrightarrow> (\<exists>i. [0..249] ! i = a \<and> ps ! i = True \<and> i < 250)"
      using assms by (simp add: in_set_zip)
    also have "\<dots> \<longleftrightarrow> (\<exists>i<250. a = int i \<and> ps ! i)"
    proof
      assume "\<exists>i. [0..249] ! i = a \<and> ps ! i = True \<and> i < 250"
      then obtain i where "[0..249] ! i = a" "ps ! i" "i < 250"
        by blast
      with nth [of i] show "\<exists>i<250. a = int i \<and> ps ! i"
        by (intro exI [of _ i]) simp
    next
      assume "\<exists>i<250. a = int i \<and> ps ! i"
      then obtain i where "i < 250" "a = int i" "ps ! i"
        by blast
      with nth [of i] show "\<exists>i. [0..249] ! i = a \<and> ps ! i = True \<and> i < 250"
        by (intro exI [of _ i]) simp
    qed
    finally show ?thesis .
  qed
  have "set (collected [0..249] ps) = {int i | i. i < 250 \<and> ps ! i}"
    using mem by blast
  also have "\<dots> = {a. 0 \<le> a \<and> a \<le> 249 \<and> ps ! nat a}"
  proof (intro set_eqI iffI)
    fix a
    assume "a \<in> {int i | i. i < 250 \<and> ps ! i}"
    then show "a \<in> {a. 0 \<le> a \<and> a \<le> 249 \<and> ps ! nat a}"
      by auto
  next
    fix a
    assume "a \<in> {a. 0 \<le> a \<and> a \<le> 249 \<and> ps ! nat a}"
    then have "a = int (nat a)" "nat a < 250" "ps ! nat a"
      by auto
    then show "a \<in> {int i | i. i < 250 \<and> ps ! i}"
      by blast
  qed
  finally show ?thesis .
qed

text \<open>
  As long as every probe returns, \<open>scan\<close> probes the addresses 0, 1, ..., 249 in this
  order, each one once, and the list it prints (each address through \<open>hex\<close>) is made of
  exactly the addresses whose probe returned True, in ascending order and without
  duplicates. A probe that raises ends the scan with its exception.
\<close>

lemma scan_collects:
  "scan D s =
     (case probe_each D [0..249] s of
        (Inl e, s1) \<Rightarrow> (Inl e, s1)
      | (Inr ps, s1) \<Rightarrow>
          (Inr (),
           s1\<lparr>stdout := stdout s1 @
             [PrintScan ''Responses from i2c devices at: ''
                (map hex (collected [0..249] ps))]\<rparr>)) \<and>
   (\<forall>ps s1. probe_each D [0..249] s = (Inr ps, s1) \<longrightarrow>
      length ps = 250 \<and>
      sorted_wrt (<) (collected [0..249] ps) \<and>
      distinct (collected [0..249] ps) \<and>
      set (collected [0..249] ps) = {a. 0 \<le> a \<and> a \<le> 249 \<and> ps ! nat a})"
proof
  show "scan D s =
     (case probe_each D [0..249] s of
        (Inl e, s1) \<Rightarrow> (Inl e, s1)
      | (Inr ps, s1) \<Rightarrow>
          (Inr (),
           s1\<lparr>stdout := stdout s1 @
             [PrintScan ''Responses from i2c devices at: ''
                (map hex (collected [0..249] ps))]\<rparr>))"
    by (simp add: scan_def bind_io_def print_io_def scan_loop_probe_each
        split: prod.splits sum.splits)
next
  have srt: "sorted_wrt (<) [0..249::int]"
    by (simp add: sorted_wrt_upto)
  show "\<forall>ps s1. probe_each D [0..249] s = (Inr ps, s1) \<longrightarrow>
      length ps = 250 \<and>
      sorted_wrt (<) (collected [0..249] ps) \<and>
      distinct (collected [0..249] ps) \<and>
      set (collected [0..249] ps) = {a. 0 \<le> a \<and> a \<le> 249 \<and> ps ! nat a}"
  proof (intro allI impI)
    fix ps s1
    assume "probe_each D [0..249] s = (Inr ps, s1)"
    then have "length ps = 250"
      by (auto dest: probe_each_length)
    with collected_sorted [OF srt, of ps] collected_upto [of ps]
    show "length ps = 250 \<and>
      sorted_wrt (<) (collected [0..249] ps) \<and>
      distinct (collected [0..249] ps) \<and>
      set (collected [0..249] ps) = {a. 0 \<le> a \<and> a \<le> 249 \<and> ps ! nat a}"
      by blast
  qed
qed

lemma probe_each_append:
  "probe_each D (xs @ ys) s =
     (case probe_each D xs s of
        (Inl e, s') \<Rightarrow> (Inl e, s')
      | (Inr ps, s') \<Rightarrow>
          (case probe_each D ys s' of
             (Inl e, s'') \<Rightarrow> (Inl e, s'')
           | (Inr qs, s'') \<Rightarrow> (Inr (ps @ qs), s'')))"
  by (induction xs arbitrary: s) (auto split: prod.splits sum.splits)

lemma detect_128_raises:
  assumes "byte_channel D" and "dev_write D (trace s1) EP_OUT start_cmd = Returns 3"
  shows "detect D 128 s1 =
    (Inl USBError,
     s1\<lparr>trace := trace s1 @
        [DevWrite EP_OUT start_cmd (Returns 3),
         DevWrite EP_OUT [0xaa, 0x80, 256, 0x00] Raises]\<rparr>)"
proof -
  have "dev_write D (trace s1 @ [DevWrite EP_OUT start_cmd (Returns 3)]) EP_OUT
      [0xaa, 0x80, 256, 0x00] = Raises"
    using assms(1) unfolding byte_channel_def by simp
  with assms(2) show ?thesis
    by (simp add: detect_def start_def write_bytes_def write_bytes_cmd_def Let_def io_defs
        VendorCmd_I2C_def I2CCmd_OUT_def I2CCmd_END_def start_cmd_def)
qed

text \<open>
  C9, where the code fails it. On a channel of bytes, once the probes of the addresses
  0..127 have returned and the START of the next probe is taken whole, the probe of the
  address 128 puts 128 << 1 = 256 into its command: the write raises, \<open>detect\<close> does not
  catch the exception, and \<open>scan\<close> ends there with it. The addresses 129..249 are not
  probed and no list is printed.
\<close>

theorem scan_ends_at_128:
  assumes "byte_channel D"
    and "probe_each D [0..127] s = (Inr ps, s1)"
    and "dev_write D (trace s1) EP_OUT start_cmd = Returns 3"
  shows "scan D s =
    (Inl USBError,
     s1\<lparr>trace := trace s1 @
        [DevWrite EP_OUT start_cmd (Returns 3),
         DevWrite EP_OUT [0xaa, 0x80, 256, 0x00] Raises]\<rparr>)"
proof -
  have split: "[0..249::int] = [0..127] @ 128 # [129..249]"
    using upto_split2 [of 0 127 249] upto_rec1 [of 128 249] by simp
  from assms(2) detect_128_raises [OF assms(1,3)]
  have "probe_each D [0..249] s =
    (Inl USBError,
     s1\<lparr>trace := trace s1 @
        [DevWrite EP_OUT start_cmd (Returns 3),
         DevWrite EP_OUT [0xaa, 0x80, 256, 0x00] Raises]\<rparr>)"
    unfolding split probe_each_append by simp
  then show ?thesis
    by (simp add: scan_def bind_io_def scan_loop_probe_each)
qed

lemma detect_bytes_at_0x50:
  assumes "0 \<le> a" and "a \<le> 127"
  shows "\<exists>s'. detect dev_bytes_at_0x50 a s = (Inr (a = 0x50), s')"
proof (cases "a = 0x50")
  case True
  then show ?thesis
    by (simp add: run_defs io_defs cmd_defs dev_bytes_at_0x50_def)
next
  case False
  then have "push_bit 1 a \<noteq> 0xa0"
    by (simp add: push_bit_eq_mult)
  moreover from assms have "0 \<le> push_bit 1 a" "push_bit 1 a \<le> 255"
    by (simp_all add: push_bit_eq_mult)
  ultimately show ?thesis
    using False by (simp add: run_defs io_defs cmd_defs dev_bytes_at_0x50_def)
qed

lemma probe_each_bytes_at_0x50:
  assumes "\<forall>a \<in> set addrs. 0 \<le> a \<and> a \<le> 127"
  shows "\<exists>s'. probe_each dev_bytes_at_0x50 addrs s = (Inr (map (\<lambda>a. a = 0x50) addrs), s')"
  using assms
proof (induction addrs arbitrary: s)
  case Nil
  show ?case
    by simp
next
  case (Cons a addrs)
  then have "0 \<le> a" "a \<le> 127"
    by simp_all
  from detect_bytes_at_0x50 [OF this, of s] obtain s1
    where "detect dev_bytes_at_0x50 a s = (Inr (a = 0x50), s1)" ..
  moreover from Cons obtain s2
    where "probe_each dev_bytes_at_0x50 addrs s1 = (Inr (map (\<lambda>a. a = 0x50) addrs), s2)"
    by fastforce
  ultimately show ?case
    by simp
qed

theorem scan_ends_at_128_witness:
  "byte_channel dev_bytes_at_0x50 \<and>
   fst (probe_each dev_bytes_at_0x50 [0..127] world0) = Inr (map (\<lambda>a. a = 0x50) [0..127]) \<and>
   fst (scan dev_bytes_at_0x50 world0) = Inl USBError \<and>
   last (trace (snd (scan dev_bytes_at_0x50 world0))) =
     DevWrite 0x02 [0xaa, 0x80, 256, 0x00] Raises \<and>
   stdout (snd (scan dev_bytes_at_0x50 world0)) =
     stdout (snd (probe_each dev_bytes_at_0x50 [0..127] world0))"
proof -
  have bc: "byte_channel dev_bytes_at_0x50"
    by (auto simp add: byte_channel_def dev_bytes_at_0x50_def list_all_iff)
  have "\<forall>a \<in> set [0..127::int]. 0 \<le> a \<and> a \<le> 127"
    by simp
  from probe_each_bytes_at_0x50 [OF this, of world0] obtain s1 where
    run: "probe_each dev_bytes_at_0x50 [0..127] world0 =
      (Inr (map (\<lambda>a. a = 0x50) [0..127]), s1)" ..
  have st: "dev_write dev_bytes_at_0x50 (trace s1) EP_OUT start_cmd = Returns 3"
    by (simp add: dev_bytes_at_0x50_def start_cmd_def cmd_defs)
  from scan_ends_at_128 [OF bc run st] bc run show ?thesis
    by (simp add: EP_OUT_def)
qed

end
